theory Spec2Isabelle
  imports Main
begin

section \<open>Python strings\<close>

text \<open>
  A Python \<open>str\<close> is a sequence of Unicode code points, and \<open>len\<close> counts code points.
  The source uses characters outside Latin-1 (the ellipsis U+2026 and the curly quotes
  U+201C, U+201D), so a string is modelled as a list of code points, each a natural number.
  \<open>str\<close> turns an ASCII literal into such a list and \<open>cp\<close> a single ASCII character.
\<close>

type_synonym pystr = "nat list"

abbreviation cp :: "char \<Rightarrow> nat" where
  "cp c \<equiv> of_char c"

definition str :: "string \<Rightarrow> pystr" where
  "str cs = map of_char cs"

text \<open>Truthiness of an \<open>Optional[str]\<close>: \<open>None\<close> and the empty string are false.\<close>

definition truthy :: "pystr option \<Rightarrow> bool" where
  "truthy v = (case v of None \<Rightarrow> False | Some s \<Rightarrow> s \<noteq> [])"

definition startswith :: "pystr \<Rightarrow> pystr \<Rightarrow> bool" where
  "startswith s pre = (take (length pre) s = pre)"

definition endswith :: "pystr \<Rightarrow> pystr \<Rightarrow> bool" where
  "endswith s suf = (length suf \<le> length s \<and> drop (length s - length suf) s = suf)"

text \<open>
  \<open>str.lower\<close>. It is exact on ASCII, and on the two code points outside ASCII whose
  lower-case form contains an ASCII letter (U+0130 and the Kelvin sign U+212A). Every other
  code point is left as it is: its lower-case form is again outside ASCII. The program
  lower-cases a scheme, which is ASCII, and a host name, which it only compares with ASCII
  literals and never outputs.
\<close>

definition lower_cp :: "nat \<Rightarrow> pystr" where
  "lower_cp c =
     (if 65 \<le> c \<and> c \<le> 90 then [c + 32]
      else if c = 304 then [105, 775]
      else if c = 8490 then [107]
      else [c])"

definition lower :: "pystr \<Rightarrow> pystr" where
  "lower s = concat (map lower_cp s)"

text \<open>
  \<open>s.partition(c)\<close> gives \<open>(before c s, c, after c s)\<close> when \<open>c\<close> occurs in \<open>s\<close> and
  \<open>(s, '', '')\<close> otherwise; in both cases the first part is \<open>before c s\<close> and the last is
  \<open>after c s\<close>. \<open>rafter\<close> is the last part of \<open>s.rpartition(c)\<close>.
\<close>

definition before :: "nat \<Rightarrow> pystr \<Rightarrow> pystr" where
  "before c s = takeWhile (\<lambda>x. x \<noteq> c) s"

definition after :: "nat \<Rightarrow> pystr \<Rightarrow> pystr" where
  "after c s = drop 1 (dropWhile (\<lambda>x. x \<noteq> c) s)"

definition rafter :: "nat \<Rightarrow> pystr \<Rightarrow> pystr" where
  "rafter c s = rev (takeWhile (\<lambda>x. x \<noteq> c) (rev s))"

section \<open>The environment: interpreter library checks and the network\<close>

text \<open>
  Exceptions are values. \<open>ValueError\<close> is what \<open>urlparse\<close> raises, \<open>TypeError\<close> what
  \<open>re.sub\<close> raises on a value that is not a string; the other three are the failures of
  an HTTP request (all of them subclasses of \<open>Exception\<close>).
\<close>

datatype exn = ValueError | TypeError | TimeoutError | ClientError | ProtocolError

text \<open>
  The part of an aiohttp response the program reads is \<open>resp.url\<close>, the URL of the last
  response after redirects were followed; \<open>history\<close> holds the URLs of the redirect
  responses before it (empty when the server did not redirect).
\<close>

record response =
  status :: nat
  resp_url :: pystr
  history :: "pystr list"

datatype request = HEAD pystr | GET pystr

text \<open>
  What the program cannot decide by itself is a parameter:
  \<^item> \<open>check_bracketed_host\<close>: whether \<open>urllib.parse._check_bracketed_host\<close> accepts the
    text between square brackets of a network location (an IPv6 or IPvFuture literal);
  \<^item> \<open>nfkc_ok\<close>: whether \<open>urllib.parse._checknetloc\<close> accepts a network location that
    has a character outside ASCII (its NFKC form holds none of \<open>/?#@:\<close>);
  \<^item> \<open>http_head\<close>, \<open>http_get\<close>: the outcome of \<open>sess.head\<close> and \<open>sess.get\<close> with
    \<open>allow_redirects=True\<close> on a URL: an exception or a response.
\<close>

record env =
  check_bracketed_host :: "pystr \<Rightarrow> bool"
  nfkc_ok :: "pystr \<Rightarrow> bool"
  http_head :: "pystr \<Rightarrow> exn + response"
  http_get :: "pystr \<Rightarrow> exn + response"

section \<open>\<open>urllib.parse\<close>: \<open>urlparse\<close>, \<open>urlunparse\<close>, \<open>hostname\<close>\<close>

text \<open>
  The program parses and rebuilds URLs with the standard library. The model follows
  CPython 3.12's \<open>urllib/parse.py\<close>; a raised \<open>ValueError\<close> is the result \<open>None\<close>.
\<close>

record ParseResult =
  scheme :: pystr
  netloc :: pystr
  path :: pystr
  params :: pystr
  query :: pystr
  fragment :: pystr

definition uses_params :: "pystr list" where
  "uses_params = map str
     ['''', ''ftp'', ''hdl'', ''prospero'', ''http'', ''imap'', ''https'', ''shttp'',
      ''rtsp'', ''rtsps'', ''rtspu'', ''sip'', ''sips'', ''mms'', ''sftp'', ''tel'']"

definition uses_netloc :: "pystr list" where
  "uses_netloc = map str
     ['''', ''ftp'', ''http'', ''gopher'', ''nntp'', ''telnet'', ''imap'', ''wais'',
      ''file'', ''mms'', ''https'', ''shttp'', ''snews'', ''prospero'', ''rtsp'',
      ''rtsps'', ''rtspu'', ''rsync'', ''svn'', ''svn+ssh'', ''sftp'', ''nfs'', ''git'',
      ''git+ssh'', ''ws'', ''wss'', ''itms-services'']"

text \<open>\<open>_WHATWG_C0_CONTROL_OR_SPACE\<close>: the code points 0 to 32.\<close>

definition c0_control_or_space :: "nat \<Rightarrow> bool" where
  "c0_control_or_space c = (c \<le> 32)"

text \<open>\<open>_UNSAFE_URL_BYTES_TO_REMOVE\<close>: tab, carriage return, line feed.\<close>

definition unsafe_url_byte :: "nat \<Rightarrow> bool" where
  "unsafe_url_byte c = (c = 9 \<or> c = 13 \<or> c = 10)"

definition ascii_alpha :: "nat \<Rightarrow> bool" where
  "ascii_alpha c = ((65 \<le> c \<and> c \<le> 90) \<or> (97 \<le> c \<and> c \<le> 122))"

text \<open>\<open>scheme_chars\<close>: ASCII letters, digits and \<open>+-.\<close>\<close>

definition scheme_char :: "nat \<Rightarrow> bool" where
  "scheme_char c = (ascii_alpha c \<or> (48 \<le> c \<and> c \<le> 57) \<or> c = cp CHR ''+''
                    \<or> c = cp CHR ''-'' \<or> c = cp CHR ''.'')"

text \<open>
  The scheme is the text before the first colon, when that text is not empty, starts with
  an ASCII letter and holds scheme characters only.
\<close>

definition split_scheme :: "pystr \<Rightarrow> pystr \<times> pystr" where
  "split_scheme url =
     (if cp CHR '':'' \<in> set url \<and> before (cp CHR '':'') url \<noteq> [] \<and> ascii_alpha (hd url)
         \<and> list_all scheme_char (before (cp CHR '':'') url)
      then (lower (before (cp CHR '':'') url), after (cp CHR '':'') url)
      else ([], url))"

definition netloc_delim :: "nat \<Rightarrow> bool" where
  "netloc_delim c = (c = cp CHR ''/'' \<or> c = cp CHR ''?'' \<or> c = cp CHR ''#'')"

text \<open>\<open>_splitnetloc(url, 2)\<close>: the network location ends before the first of \<open>/?#\<close>.\<close>

definition splitnetloc :: "pystr \<Rightarrow> pystr \<times> pystr" where
  "splitnetloc url =
     (takeWhile (\<lambda>c. \<not> netloc_delim c) (drop 2 url),
      dropWhile (\<lambda>c. \<not> netloc_delim c) (drop 2 url))"

definition checknetloc :: "env \<Rightarrow> pystr \<Rightarrow> bool" where
  "checknetloc E n = (n = [] \<or> list_all (\<lambda>c. c < 128) n \<or> nfkc_ok E n)"

text \<open>The conditions under which \<open>urlsplit\<close> raises \<open>ValueError\<close>.\<close>

definition netloc_error :: "env \<Rightarrow> pystr \<Rightarrow> bool" where
  "netloc_error E n =
     ((cp CHR ''['' \<in> set n \<and> cp CHR '']'' \<notin> set n)
      \<or> (cp CHR '']'' \<in> set n \<and> cp CHR ''['' \<notin> set n)
      \<or> (cp CHR ''['' \<in> set n \<and> cp CHR '']'' \<in> set n
          \<and> \<not> check_bracketed_host E (before (cp CHR '']'') (after (cp CHR ''['') n)))
      \<or> \<not> checknetloc E n)"

definition urlsplit :: "env \<Rightarrow> pystr \<Rightarrow> (pystr \<times> pystr \<times> pystr \<times> pystr \<times> pystr) option" where
  "urlsplit E url0 =
     (let url1 = filter (\<lambda>c. \<not> unsafe_url_byte c) (dropWhile c0_control_or_space url0);
          (sch, url2) = split_scheme url1;
          (nl, url3) = (if take 2 url2 = str ''//'' then splitnetloc url2 else ([], url2))
      in if netloc_error E nl then None
         else
           let (url4, frag) = (if cp CHR ''#'' \<in> set url3
                               then (before (cp CHR ''#'') url3, after (cp CHR ''#'') url3)
                               else (url3, []));
               (url5, qry) = (if cp CHR ''?'' \<in> set url4
                              then (before (cp CHR ''?'') url4, after (cp CHR ''?'') url4)
                              else (url4, []))
           in Some (sch, nl, url5, qry, frag))"

text \<open>
  \<open>_splitparams\<close>: the parameters start at the first semicolon of the last path segment
  (\<open>url.find(';', url.rfind('/'))\<close>), or at the first semicolon when there is no slash.
  Without a slash and without a semicolon the index is \<open>-1\<close> and the result is
  \<open>(url[:-1], url)\<close>; \<open>urlparse\<close> calls the function on a text with a semicolon only.
\<close>

definition splitparams :: "pystr \<Rightarrow> pystr \<times> pystr" where
  "splitparams url =
     (if cp CHR ''/'' \<in> set url
      then (let seg = rafter (cp CHR ''/'') url
            in if cp CHR '';'' \<in> set seg
               then (take (length url - length seg) url @ before (cp CHR '';'') seg,
                     after (cp CHR '';'') seg)
               else (url, []))
      else if cp CHR '';'' \<in> set url
      then (before (cp CHR '';'') url, after (cp CHR '';'') url)
      else (butlast url, url))"

definition urlparse :: "env \<Rightarrow> pystr \<Rightarrow> ParseResult option" where
  "urlparse E url =
     (case urlsplit E url of
        None \<Rightarrow> None
      | Some (sch, nl, u, qry, frag) \<Rightarrow>
          (let (u', prm) = (if sch \<in> set uses_params \<and> cp CHR '';'' \<in> set u
                            then splitparams u else (u, []))
           in Some \<lparr>scheme = sch, netloc = nl, path = u', params = prm,
                     query = qry, fragment = frag\<rparr>))"

definition urlunsplit :: "pystr \<times> pystr \<times> pystr \<times> pystr \<times> pystr \<Rightarrow> pystr" where
  "urlunsplit c =
     (case c of (sch, nl, url, qry, frag) \<Rightarrow>
        (let url1 = (if nl \<noteq> [] \<or> (sch \<noteq> [] \<and> sch \<in> set uses_netloc \<and> take 2 url \<noteq> str ''//'')
                     then str ''//'' @ nl @
                          (if url \<noteq> [] \<and> take 1 url \<noteq> str ''/'' then str ''/'' @ url else url)
                     else url);
             url2 = (if sch \<noteq> [] then sch @ str '':'' @ url1 else url1);
             url3 = (if qry \<noteq> [] then url2 @ str ''?'' @ qry else url2)
         in if frag \<noteq> [] then url3 @ str ''#'' @ frag else url3))"

definition urlunparse :: "ParseResult \<Rightarrow> pystr" where
  "urlunparse p =
     urlunsplit (scheme p, netloc p,
                 (if params p \<noteq> [] then path p @ str '';'' @ params p else path p),
                 query p, fragment p)"

text \<open>
  \<open>_hostinfo\<close>: drop the user information (up to the last \<open>@\<close>), then take the text in
  square brackets, or else the text before the first colon; what follows is the port.
\<close>

definition hostinfo :: "ParseResult \<Rightarrow> pystr \<times> pystr option" where
  "hostinfo p =
     (let hi = rafter (cp CHR ''@'') (netloc p);
          (h, port) = (if cp CHR ''['' \<in> set hi
                       then (before (cp CHR '']'') (after (cp CHR ''['') hi),
                             after (cp CHR '':'') (after (cp CHR '']'') (after (cp CHR ''['') hi)))
                       else (before (cp CHR '':'') hi, after (cp CHR '':'') hi))
      in (h, if port = [] then None else Some port))"

text \<open>\<open>hostname\<close>: lower-cased, except for an IPv6 zone after \<open>%\<close>.\<close>

definition hostname :: "ParseResult \<Rightarrow> pystr option" where
  "hostname p =
     (let h = fst (hostinfo p)
      in if h = [] then None
         else Some (lower (before (cp CHR ''%'') h)
                    @ (if cp CHR ''%'' \<in> set h then str ''%'' else [])
                    @ after (cp CHR ''%'') h))"

section \<open>Rewriting configuration\<close>

definition DEFAULT_MIRRORS :: "(pystr \<times> pystr) list" where
  "DEFAULT_MIRRORS =
     [(str ''twitter.com'', str ''fixupx.com''),
      (str ''x.com'', str ''fixupx.com''),
      (str ''instagram.com'', str ''kkinstagram.com''),
      (str ''reddit.com'', str ''rxddit.com''),
      (str ''tiktok.com'', str ''vxtiktok.com''),
      (str ''bsky.app'', str ''bskx.app'')]"

definition SKIP_HOSTS :: "pystr set" where
  "SKIP_HOSTS =
     {str ''fxtwitter.com'', str ''fixupx.com'',
      str ''kkinstagram.com'', str ''uuinstagram.com'', str ''instagramez.com'',
      str ''rxddit.com'', str ''vxreddit.com'',
      str ''vxtiktok.com'',
      str ''bskx.app'', str ''bskyx.app''}"

definition SUPPORTED_IG_POST_PREFIXES :: "pystr list" where
  "SUPPORTED_IG_POST_PREFIXES = [str ''/reel/'', str ''/p/'', str ''/tv/'']"

definition STORY_PREFIX :: pystr where
  "STORY_PREFIX = str ''/stories/''"

section \<open>Domain routing\<close>

definition pick_source :: "pystr \<Rightarrow> pystr option" where
  "pick_source host =
     (let h = lower host
      in if endswith h (str ''twitter.com'') \<or> endswith h (str ''x.com'') then Some (str ''x.com'')
         else if endswith h (str ''instagram.com'') then Some (str ''instagram.com'')
         else if endswith h (str ''reddit.com'') then Some (str ''reddit.com'')
         else if endswith h (str ''tiktok.com'') then Some (str ''tiktok.com'')
         else if endswith h (str ''bsky.app'') then Some (str ''bsky.app'')
         else None)"

section \<open>Instagram plumbing\<close>

text \<open>
  \<open>_resolve_instagram_share\<close>. The result is paired with the requests that were sent, in
  order. An \<open>except Exception\<close> clause catches every value of \<open>exn\<close>. The shared session
  of \<open>_get_session\<close> is created without a request and is not modelled.
\<close>

definition resolve_instagram_share :: "env \<Rightarrow> pystr \<Rightarrow> pystr option \<times> request list" where
  "resolve_instagram_share E url =
     (case http_head E url of
        Inr resp \<Rightarrow> (Some (resp_url resp), [HEAD url])
      | Inl e \<Rightarrow>
          (case http_get E url of
             Inr resp \<Rightarrow> (Some (resp_url resp), [HEAD url, GET url])
           | Inl e' \<Rightarrow> (None, [HEAD url, GET url])))"

text \<open>
  The part of \<open>_rewrite_instagram\<close> after the share link is resolved: \<open>p\<close> is the parsed
  canonical URL.
\<close>

definition classify_instagram :: "ParseResult \<Rightarrow> pystr \<Rightarrow> pystr option \<times> pystr option" where
  "classify_instagram p canonical =
     (if startswith (path p) STORY_PREFIX then (None, Some canonical)
      else if list_ex (startswith (path p)) SUPPORTED_IG_POST_PREFIXES
      then (let mirror = map_of DEFAULT_MIRRORS (str ''instagram.com'')
            in if \<not> truthy mirror then (None, Some canonical)
               else (Some (urlunparse (p\<lparr>netloc := the mirror\<rparr>)), Some canonical))
      else (None, Some canonical))"

definition rewrite_instagram :: "env \<Rightarrow> pystr \<Rightarrow> exn + (pystr option \<times> pystr option)" where
  "rewrite_instagram E url =
     (case urlparse E url of
        None \<Rightarrow> Inl ValueError
      | Some p \<Rightarrow>
          if startswith (path p) (str ''/share/'')
          then (let final = fst (resolve_instagram_share E url)
                in if \<not> truthy final then Inr (None, None)
                   else (case urlparse E (the final) of
                           None \<Rightarrow> Inl ValueError
                         | Some p' \<Rightarrow> Inr (classify_instagram p' (the final))))
          else Inr (classify_instagram p url))"

section \<open>Generic rewrite\<close>

text \<open>
  \<open>_rewrite_one\<close>. The body is inside \<open>try\<close> \<dots> \<open>except Exception\<close>, so a \<open>ValueError\<close>
  of either parse gives \<open>(None, None)\<close>.
\<close>

definition rewrite_one :: "env \<Rightarrow> pystr \<Rightarrow> pystr option \<times> pystr option" where
  "rewrite_one E url =
     (case urlparse E url of
        None \<Rightarrow> (None, None)
      | Some p \<Rightarrow>
          (let host = lower (case hostname p of None \<Rightarrow> [] | Some h \<Rightarrow> h)
           in if host = [] \<or> host \<in> SKIP_HOSTS then (None, None)
              else if endswith host (str ''instagram.com'')
              then (case rewrite_instagram E url of Inl e \<Rightarrow> (None, None) | Inr r \<Rightarrow> r)
              else (let src = pick_source host
                    in if \<not> truthy src then (None, None)
                       else (let mirror = map_of DEFAULT_MIRRORS (the src)
                             in if \<not> truthy mirror then (None, None)
                                else (let new_url = urlunparse (p\<lparr>netloc := the mirror\<rparr>)
                                      in (if new_url \<noteq> url then Some new_url else None,
                                          None))))))"

text \<open>
  The rewrite phase of \<open>on_message\<close>: every distinct link is rewritten once, in order of
  first occurrence, and kept with its mirror when a mirror was produced.
\<close>

fun rewrite_phase :: "env \<Rightarrow> pystr list \<Rightarrow> pystr set \<Rightarrow> (pystr \<times> pystr \<times> pystr option) list" where
  "rewrite_phase E [] seen = []"
| "rewrite_phase E (link # links) seen =
     (if link \<in> seen then rewrite_phase E links seen
      else (case rewrite_one E link of
              (mirror, canonical_ig) \<Rightarrow>
                (if truthy mirror then [(link, the mirror, canonical_ig)] else [])
                @ rewrite_phase E links (insert link seen)))"

text \<open>
  Fixed environments for evaluating the program on concrete input. The library accepts
  every network location. In \<open>env0\<close> the \<open>HEAD\<close> request is answered without a
  redirect and a \<open>GET\<close> request would be redirected to a story; in \<open>env1\<close> the \<open>HEAD\<close>
  request times out; in \<open>env2\<close> both requests fail.
\<close>

definition env0 :: env where
  "env0 = \<lparr>check_bracketed_host = (\<lambda>h. True), nfkc_ok = (\<lambda>n. True),
           http_head = (\<lambda>u. Inr \<lparr>status = 200, resp_url = u, history = []\<rparr>),
           http_get = (\<lambda>u. Inr \<lparr>status = 200,
                                  resp_url = str ''https://www.instagram.com/stories/abc/999'',
                                  history = [u]\<rparr>)\<rparr>"

definition env1 :: env where
  "env1 = env0\<lparr>http_head := (\<lambda>u. Inl TimeoutError)\<rparr>"

definition env2 :: env where
  "env2 = env1\<lparr>http_get := (\<lambda>u. Inl ClientError)\<rparr>"

section \<open>Parsed pages\<close>

text \<open>
  A parsed page, as far as the program looks at it: the \<open>meta\<close> tags in document order,
  each with its attributes, and for every \<open>application/ld+json\<close> script, in document
  order, what \<open>json.loads\<close> makes of its text (\<open>None\<close> when it raises).
\<close>

datatype json = JNull | JBool bool | JNum int | JStr pystr | JArr "json list"
  | JObj "(pystr \<times> json) list"

record soup =
  metas :: "(pystr \<times> pystr) list list"
  ld_json :: "json option list"

section \<open>Text helpers\<close>

text \<open>
  The characters that \<open>\\s\<close> matches in a \<open>str\<close> pattern and that \<open>str.strip\<close> removes:
  those for which \<open>str.isspace\<close> holds.
\<close>

definition is_space :: "nat \<Rightarrow> bool" where
  "is_space c = ((9 \<le> c \<and> c \<le> 13) \<or> (28 \<le> c \<and> c \<le> 32) \<or> c = 133 \<or> c = 160 \<or> c = 5760
                 \<or> (8192 \<le> c \<and> c \<le> 8202) \<or> c = 8232 \<or> c = 8233 \<or> c = 8239 \<or> c = 8287
                 \<or> c = 12288)"

text \<open>\<open>re.sub(r"\\s+", " ", s)\<close>: every maximal run of whitespace becomes one space.\<close>

function collapse_ws :: "pystr \<Rightarrow> pystr" where
  "collapse_ws [] = []"
| "collapse_ws (c # s) =
     (if is_space c then cp CHR '' '' # collapse_ws (dropWhile is_space s)
      else c # collapse_ws s)"
  by pat_completeness auto
termination
  by (relation "measure length") (auto simp: less_Suc_eq_le length_dropWhile_le)

definition strip :: "pystr \<Rightarrow> pystr" where
  "strip s = rev (dropWhile is_space (rev (dropWhile is_space s)))"

definition compact_ws :: "pystr option \<Rightarrow> pystr" where
  "compact_ws s = strip (collapse_ws (case s of None \<Rightarrow> [] | Some t \<Rightarrow> t))"

text \<open>The ellipsis character U+2026 and the default of \<open>max_len\<close>.\<close>

definition ellipsis :: nat where
  "ellipsis = 8230"

definition MAX_LEN :: int where
  "MAX_LEN = 600"

text \<open>The slice \<open>s[:k]\<close>; a negative \<open>k\<close> counts from the end.\<close>

definition slice_to :: "pystr \<Rightarrow> int \<Rightarrow> pystr" where
  "slice_to s k = (if 0 \<le> k then take (nat k) s else take (length s - nat (- k)) s)"

definition truncate :: "pystr option \<Rightarrow> int \<Rightarrow> pystr" where
  "truncate s0 max_len =
     (let s = (case s0 of None \<Rightarrow> [] | Some t \<Rightarrow> t)
      in if int (length s) \<le> max_len then s else slice_to s (max_len - 1) @ [ellipsis])"

section \<open>Instagram enrichment\<close>

text \<open>
  The title pattern
  \<^verbatim>\<open>^(.+?)\\s+on Instagram:?\\s*["\<close>U+201C\<^verbatim>\<open>](.*?)["\<close>U+201D\<^verbatim>\<open>]?\\s*$\<close>,
  matched by \<open>re.match\<close> with backtracking. Group 1 is the shortest prefix without a line
  feed after which the rest matches; group 2 the shortest text without a line feed after
  which only an optional closing quote and whitespace remain. \<open>find_author\<close> and
  \<open>find_caption\<close> try the candidates in the order the lazy quantifiers do. The greedy
  parts between them can match in one way only, since what follows each of them is not
  whitespace.
\<close>

definition tail_ok :: "pystr \<Rightarrow> bool" where
  "tail_ok r = (list_all is_space r
               \<or> (r \<noteq> [] \<and> (hd r = cp CHR 0x22 \<or> hd r = 8221) \<and> list_all is_space (tl r)))"

fun find_caption :: "pystr \<Rightarrow> pystr \<Rightarrow> pystr option" where
  "find_caption acc [] = (if tail_ok [] then Some acc else None)"
| "find_caption acc (c # r) =
     (if tail_ok (c # r) then Some acc
      else if c = 10 then None
      else find_caption (acc @ [c]) r)"

definition match_after_author :: "pystr \<Rightarrow> pystr option" where
  "match_after_author r =
     (let r1 = dropWhile is_space r
      in if takeWhile is_space r = [] \<or> \<not> startswith r1 (str ''on Instagram'') then None
         else (let r2 = drop (length (str ''on Instagram'')) r1;
                   r3 = (if r2 \<noteq> [] \<and> hd r2 = cp CHR '':'' then tl r2 else r2);
                   r4 = dropWhile is_space r3
               in if r4 \<noteq> [] \<and> (hd r4 = cp CHR 0x22 \<or> hd r4 = 8220)
                  then find_caption [] (tl r4) else None))"

fun find_author :: "pystr \<Rightarrow> pystr \<Rightarrow> (pystr \<times> pystr) option" where
  "find_author acc [] = None"
| "find_author acc (c # r) =
     (if c = 10 then None
      else (case match_after_author r of
              Some cap \<Rightarrow> Some (acc @ [c], cap)
            | None \<Rightarrow> find_author (acc @ [c]) r))"

definition ig_title_match :: "pystr \<Rightarrow> (pystr \<times> pystr) option" where
  "ig_title_match title = find_author [] title"

definition parse_ig_from_og :: "pystr option \<Rightarrow> pystr option \<Rightarrow> pystr option \<times> pystr option" where
  "parse_ig_from_og og_title og_desc =
     (let (author, caption) =
            (if truthy og_title
             then (case ig_title_match (strip (the og_title)) of
                     Some (g1, g2) \<Rightarrow> (Some (compact_ws (Some g1)), Some (compact_ws (Some g2)))
                   | None \<Rightarrow> (None, None))
             else (None, None))
      in (author, if truthy og_desc then Some (compact_ws og_desc) else caption))"

text \<open>
  Truthiness of a Python value. A number is observed through its truthiness only, so an
  integer stands for every JSON number.
\<close>

fun truthy_j :: "json \<Rightarrow> bool" where
  "truthy_j JNull = False"
| "truthy_j (JBool b) = b"
| "truthy_j (JNum n) = (n \<noteq> 0)"
| "truthy_j (JStr s) = (s \<noteq> [])"
| "truthy_j (JArr xs) = (xs \<noteq> [])"
| "truthy_j (JObj kvs) = (kvs \<noteq> [])"

definition py_or :: "json \<Rightarrow> json \<Rightarrow> json" where
  "py_or a b = (if truthy_j a then a else b)"

text \<open>\<open>d.get(k)\<close> on a dictionary.\<close>

definition jget :: "(pystr \<times> json) list \<Rightarrow> pystr \<Rightarrow> json" where
  "jget d k = (case map_of d k of None \<Rightarrow> JNull | Some v \<Rightarrow> v)"

definition of_opt :: "pystr option \<Rightarrow> json" where
  "of_opt v = (case v of None \<Rightarrow> JNull | Some s \<Rightarrow> JStr s)"

text \<open>\<open>soup.find("meta", attrs={attr: prop})\<close> and the local function \<open>meta\<close>.\<close>

definition find_meta :: "soup \<Rightarrow> pystr \<Rightarrow> pystr \<Rightarrow> (pystr \<times> pystr) list option" where
  "find_meta sp prop attr = find (\<lambda>tag. map_of tag attr = Some prop) (metas sp)"

definition meta :: "soup \<Rightarrow> pystr \<Rightarrow> pystr \<Rightarrow> pystr option" where
  "meta sp prop attr =
     (case find_meta sp prop attr of
        None \<Rightarrow> None
      | Some tag \<Rightarrow> if truthy (map_of tag (str ''content'')) then map_of tag (str ''content'')
                    else None)"

text \<open>The body of the loop over the items of one structured-data block.\<close>

definition ld_item :: "json \<times> json \<Rightarrow> json \<Rightarrow> json \<times> json" where
  "ld_item ac d =
     (case d of
        JObj kvs \<Rightarrow>
          (let author = fst ac; caption = snd ac;
               author1 =
                 (if \<not> truthy_j author
                  then (case jget kvs (str ''author'') of
                          JObj a \<Rightarrow> py_or (jget a (str ''name'')) (jget a (str ''alternateName''))
                        | JArr (JObj a0 # rest) \<Rightarrow> jget a0 (str ''name'')
                        | _ \<Rightarrow> author)
                  else author);
               caption1 =
                 (if \<not> truthy_j caption
                  then py_or (jget kvs (str ''caption''))
                         (py_or (jget kvs (str ''description'')) (jget kvs (str ''articleBody'')))
                  else caption)
           in (author1, caption1))
      | _ \<Rightarrow> ac)"

definition ld_script :: "json \<times> json \<Rightarrow> json option \<Rightarrow> json \<times> json" where
  "ld_script ac script =
     (case script of
        None \<Rightarrow> ac
      | Some data \<Rightarrow> foldl ld_item ac (case data of JArr items \<Rightarrow> items | _ \<Rightarrow> [data]))"

text \<open>
  The last two assignments: a truthy value that is not a string makes \<open>re.sub\<close> raise
  \<open>TypeError\<close>, outside every \<open>try\<close>.
\<close>

definition finish_author :: "json \<Rightarrow> exn + pystr option" where
  "finish_author a =
     (if truthy_j a
      then (case a of JStr s \<Rightarrow> Inr (Some (compact_ws (Some s))) | _ \<Rightarrow> Inl TypeError)
      else Inr None)"

definition finish_caption :: "json \<Rightarrow> exn + pystr option" where
  "finish_caption c =
     (if truthy_j c
      then (case c of
              JStr s \<Rightarrow> Inr (Some (truncate (Some (compact_ws (Some s))) MAX_LEN))
            | _ \<Rightarrow> Inl TypeError)
      else Inr None)"

text \<open>
  The title and the description that \<open>_extract_og_twitter_meta\<close> passes on: the Open
  Graph tag when it has content, else the Twitter card tag when that has content.
\<close>

definition og_title_of :: "soup \<Rightarrow> pystr option" where
  "og_title_of sp =
     (let og_title = meta sp (str ''og:title'') (str ''property'');
          tw_title = meta sp (str ''twitter:title'') (str ''name'')
      in if \<not> truthy og_title \<and> truthy tw_title then tw_title else og_title)"

definition og_desc_of :: "soup \<Rightarrow> pystr option" where
  "og_desc_of sp =
     (let og_desc = meta sp (str ''og:description'') (str ''property'');
          tw_desc = meta sp (str ''twitter:description'') (str ''name'')
      in if \<not> truthy og_desc \<and> truthy tw_desc then tw_desc else og_desc)"

definition extract_og_twitter_meta :: "soup \<Rightarrow> exn + (pystr option \<times> pystr option)" where
  "extract_og_twitter_meta sp =
     (let (author, caption) = parse_ig_from_og (og_title_of sp) (og_desc_of sp);
          ac = (if \<not> (truthy author \<and> truthy caption)
                then foldl ld_script (of_opt author, of_opt caption) (ld_json sp)
                else (of_opt author, of_opt caption))
      in (case finish_author (fst ac) of
            Inl e \<Rightarrow> Inl e
          | Inr a \<Rightarrow> (case finish_caption (snd ac) of
                        Inl e \<Rightarrow> Inl e
                      | Inr c \<Rightarrow> Inr (a, c))))"

text \<open>
  Two pages for evaluating the extraction. Both have the title
  \<open>bob on Instagram: "hello"\<close>. In \<open>soup0\<close> the description is a single space and a
  structured-data block has a caption; in \<open>soup1\<close> the description is
  \<open>"  A  nice   day "\<close> and there is no structured data.
\<close>

definition soup0 :: soup where
  "soup0 = \<lparr>metas = [[(str ''property'', str ''og:title''),
                       (str ''content'', str ''bob on Instagram: '' @ [34] @ str ''hello'' @ [34])],
                      [(str ''property'', str ''og:description''), (str ''content'', str '' '')]],
            ld_json = [Some (JObj [(str ''caption'', JStr (str ''from json''))])]\<rparr>"

definition soup1 :: soup where
  "soup1 = \<lparr>metas = [[(str ''property'', str ''og:title''),
                       (str ''content'', str ''bob on Instagram: '' @ [34] @ str ''hello'' @ [34])],
                      [(str ''property'', str ''og:description''),
                       (str ''content'', str ''  A  nice   day '')]],
            ld_json = []\<rparr>"

section \<open>Repost formatting\<close>

text \<open>
  A block is \<open>(orig, mirror, ig_author, ig_caption)\<close>. \<open>block_lines\<close> holds the lines one
  round of the loop appends. \<open>"\\n".join\<close> raises \<open>TypeError\<close> when \<open>extra_text\<close> is
  \<open>None\<close>.
\<close>

type_synonym block = "pystr \<times> pystr \<times> pystr option \<times> pystr option"

definition block_lines :: "block \<Rightarrow> pystr list" where
  "block_lines b =
     (case b of (orig, mirror, ig_author, ig_caption) \<Rightarrow>
        (if truthy ig_author \<or> truthy ig_caption
         then (if truthy ig_author then [str ''**Author:** '' @ the ig_author] else [])
              @ (if truthy ig_caption then [str ''**Caption:** '' @ the ig_caption] else [])
         else [])
        @ [str ''[Original Link](<'' @ orig @ str ''>) | [Embed Link]('' @ mirror @ str '')''])"

definition repost_lines :: "pystr \<Rightarrow> pystr option \<Rightarrow> block list \<Rightarrow> pystr option list" where
  "repost_lines author_mention extra_text blocks =
     foldl (\<lambda>lines b. lines @ map Some (block_lines b))
       ([extra_text] @ [Some (str ''Sent by '' @ author_mention)]) blocks"

fun join_nl :: "pystr list \<Rightarrow> pystr" where
  "join_nl [] = []"
| "join_nl [l] = l"
| "join_nl (l # ls) = l @ [10] @ join_nl ls"

definition format_repost :: "pystr \<Rightarrow> pystr option \<Rightarrow> block list \<Rightarrow> exn + pystr" where
  "format_repost author_mention extra_text blocks =
     (let lines = repost_lines author_mention extra_text blocks
      in if None \<in> set lines then Inl TypeError else Inr (join_nl (map the lines)))"

section \<open>Predicates used in the proofs\<close>

text \<open>What \<open>urlsplit\<close> returns as a scheme, when it finds one.\<close>

definition valid_scheme :: "pystr \<Rightarrow> bool" where
  "valid_scheme s = (s \<noteq> [] \<and> ascii_alpha (hd s) \<and> list_all scheme_char s \<and> lower s = s)"

text \<open>The split of path and parameters that \<open>urlparse\<close> makes, and its inverse.\<close>

definition pp :: "pystr \<Rightarrow> pystr \<Rightarrow> pystr \<times> pystr" where
  "pp sch u = (if sch \<in> set uses_params \<and> cp CHR '';'' \<in> set u then splitparams u else (u, []))"

definition join_params :: "pystr \<Rightarrow> pystr \<Rightarrow> pystr" where
  "join_params a b = (if b \<noteq> [] then a @ str '';'' @ b else a)"

text \<open>A host name as the mirror table has them: ASCII, no delimiter, no bracket.\<close>

definition plain_host :: "pystr \<Rightarrow> bool" where
  "plain_host m = (m \<noteq> [] \<and> list_all (\<lambda>c. c < 128 \<and> \<not> netloc_delim c \<and> \<not> unsafe_url_byte c
      \<and> c \<noteq> cp CHR ''['' \<and> c \<noteq> cp CHR '']'') m)"

text \<open>
  Whitespace in normal form: every whitespace character is a space and no two are
  adjacent. A trimmed string has no whitespace at either end.
\<close>

fun wsnorm :: "pystr \<Rightarrow> bool" where
  "wsnorm [] = True"
| "wsnorm [c] = (is_space c \<longrightarrow> c = cp CHR '' '')"
| "wsnorm (c # d # s) = ((is_space c \<longrightarrow> c = cp CHR '' '' \<and> \<not> is_space d) \<and> wsnorm (d # s))"

definition trimmed :: "pystr \<Rightarrow> bool" where
  "trimmed s = (s = [] \<or> (\<not> is_space (hd s) \<and> \<not> is_space (last s)))"

section \<open>URL parsing and rewriting\<close>

subsection \<open>Splitting at a character\<close>

lemma tw_app: "c \<notin> set a \<Longrightarrow> takeWhile (\<lambda>x. x \<noteq> c) (a @ r) = a @ takeWhile (\<lambda>x. x \<noteq> c) r"
  by (induction a) auto

lemma dw_app: "c \<notin> set a \<Longrightarrow> dropWhile (\<lambda>x. x \<noteq> c) (a @ r) = dropWhile (\<lambda>x. x \<noteq> c) r"
  by (induction a) auto

lemma before_notin: "c \<notin> set s \<Longrightarrow> before c s = s"
  by (auto simp: before_def)

lemma after_notin: "c \<notin> set s \<Longrightarrow> after c s = []"
proof -
  assume "c \<notin> set s"
  then have h: "dropWhile (\<lambda>x. x \<noteq> c) s = []" by (induction s) auto
  show ?thesis unfolding after_def h by simp
qed

lemma before_app: "c \<notin> set a \<Longrightarrow> before c (a @ c # b) = a"
  by (simp add: before_def tw_app)

lemma after_app: "c \<notin> set a \<Longrightarrow> after c (a @ c # b) = b"
  by (simp add: after_def dw_app)

lemma before_after: "c \<in> set s \<Longrightarrow> before c s @ c # after c s = s"
  unfolding before_def after_def
  by (induction s) auto

lemma notin_before: "c \<notin> set (before c s)"
  unfolding before_def by (induction s) auto

lemma set_before: "set (before c s) \<subseteq> set s"
  unfolding before_def by (auto dest: set_takeWhileD)

lemma set_after: "set (after c s) \<subseteq> set s"
  unfolding after_def by (auto dest: set_dropWhileD in_set_dropD)

lemma rafter_app: "c \<notin> set b \<Longrightarrow> rafter c (a @ c # b) = b"
  using tw_app [of c "rev b" "c # rev a"] by (simp add: rafter_def)

lemma notin_rafter: "c \<notin> set (rafter c s)"
proof -
  have "c \<notin> set (takeWhile (\<lambda>x. x \<noteq> c) (rev s))" by (auto dest: set_takeWhileD)
  then show ?thesis by (simp add: rafter_def)
qed

lemma rafter_split: "c \<in> set s \<Longrightarrow> \<exists>a. s = a @ c # rafter c s"
proof -
  assume "c \<in> set s"
  then have "c \<in> set (rev s)" by simp
  then have "before c (rev s) @ c # after c (rev s) = rev s" by (rule before_after)
  then have "rev (before c (rev s) @ c # after c (rev s)) = s" by simp
  then have "rev (after c (rev s)) @ c # rafter c s = s" by (simp add: rafter_def before_def)
  then show ?thesis by metis
qed

subsection \<open>The scheme\<close>

lemma lower_cp_scheme:
  "scheme_char c \<Longrightarrow> lower_cp c = [if 65 \<le> c \<and> c \<le> 90 then c + 32 else c]"
  by (auto simp: scheme_char_def ascii_alpha_def lower_cp_def)

lemma lower_scheme_chars:
  "list_all scheme_char s \<Longrightarrow> lower s = map (\<lambda>c. if 65 \<le> c \<and> c \<le> 90 then c + 32 else c) s"
  by (induction s) (simp_all add: lower_def lower_cp_scheme)

lemma scheme_char_lower: "scheme_char c \<Longrightarrow> scheme_char (if 65 \<le> c \<and> c \<le> 90 then c + 32 else c)"
  by (auto simp: scheme_char_def ascii_alpha_def)

lemma ascii_alpha_lower: "ascii_alpha c \<Longrightarrow> ascii_alpha (if 65 \<le> c \<and> c \<le> 90 then c + 32 else c)"
  by (auto simp: ascii_alpha_def)

lemma valid_scheme_lower:
  assumes "s \<noteq> []" "ascii_alpha (hd s)" "list_all scheme_char s"
  shows "valid_scheme (lower s)"
proof -
  let ?f = "\<lambda>c::nat. if 65 \<le> c \<and> c \<le> 90 then c + 32 else c"
  have l: "lower s = map ?f s" using assms(3) by (rule lower_scheme_chars)
  have a: "list_all scheme_char (map ?f s)"
    using assms(3) by (induction s) (simp_all add: scheme_char_lower)
  have "lower (map ?f s) = map ?f (map ?f s)" using a by (rule lower_scheme_chars)
  also have "\<dots> = map ?f s" by (induction s) auto
  finally have i: "lower (map ?f s) = map ?f s" .
  have h: "ascii_alpha (hd (map ?f s))"
    using assms(1,2) by (cases s) (simp_all add: ascii_alpha_lower)
  show ?thesis unfolding valid_scheme_def l using a i h assms(1) by simp
qed

lemma colon_not_scheme: "list_all scheme_char s \<Longrightarrow> cp CHR '':'' \<notin> set s"
  by (induction s) (auto simp: scheme_char_def ascii_alpha_def)

lemma hd_before: "before c s \<noteq> [] \<Longrightarrow> hd (before c s) = hd s"
  by (cases s) (auto simp: before_def)

lemma split_scheme_cases:
  assumes "split_scheme u = (sch, r)"
  shows "(sch = [] \<and> r = u) \<or> (valid_scheme sch \<and> set r \<subseteq> set u)"
proof (cases "sch = [] \<and> r = u")
  case True
  then show ?thesis by simp
next
  case False
  let ?b = "before (cp CHR '':'') u"
  from False assms have c: "?b \<noteq> []" "ascii_alpha (hd u)" "list_all scheme_char ?b"
    and e: "sch = lower ?b" "r = after (cp CHR '':'') u"
    by (auto simp: split_scheme_def split: if_splits)
  from c(1,2) have "ascii_alpha (hd ?b)" by (simp add: hd_before)
  with c have "valid_scheme sch" unfolding e by (simp add: valid_scheme_lower)
  moreover have "set r \<subseteq> set u" unfolding e by (rule set_after)
  ultimately show ?thesis by simp
qed

lemma split_scheme_rebuild:
  assumes "valid_scheme sch"
  shows "split_scheme (sch @ cp CHR '':'' # r) = (sch, r)"
proof -
  have n: "cp CHR '':'' \<notin> set sch" using assms colon_not_scheme by (simp add: valid_scheme_def)
  have b: "before (cp CHR '':'') (sch @ cp CHR '':'' # r) = sch" using n by (rule before_app)
  have a: "after (cp CHR '':'') (sch @ cp CHR '':'' # r) = r" using n by (rule after_app)
  have h: "hd (sch @ cp CHR '':'' # r) = hd sch" using assms by (simp add: valid_scheme_def)
  show ?thesis unfolding split_scheme_def b a h using assms by (simp add: valid_scheme_def)
qed

lemma split_scheme_slash: "split_scheme (cp CHR ''/'' # r) = ([], cp CHR ''/'' # r)"
  by (simp add: split_scheme_def ascii_alpha_def)

subsection \<open>Path and parameters\<close>

text \<open>Splitting the path that \<open>urlunparse\<close> joined gives the two parts back.\<close>

lemma take_rafter:
  assumes "c \<in> set u"
  shows "take (length u - length (rafter c u)) u @ rafter c u = u
         \<and> (\<exists>d. take (length u - length (rafter c u)) u = d @ [c])"
proof -
  define r where "r = rafter c u"
  from assms obtain a where "u = a @ c # rafter c u" using rafter_split by blast
  then have u: "u = a @ c # r" by (simp add: r_def)
  have "take (length u - length r) u = take (Suc (length a)) (a @ c # r)"
    by (subst (1 2) u) simp
  also have "\<dots> = a @ [c]" by simp
  finally have t: "take (length u - length r) u = a @ [c]" .
  then have "take (length u - length r) u @ r = u" using u by simp
  with t show ?thesis unfolding r_def by blast
qed

lemma set_rafter: "set (rafter c u) \<subseteq> set u"
  by (auto simp: rafter_def dest: set_takeWhileD)

lemma splitparams_join:
  assumes "splitparams u = (a, b)" "b \<noteq> []" "cp CHR '';'' \<in> set u"
  shows "a @ cp CHR '';'' # b = u"
proof (cases "cp CHR ''/'' \<in> set u")
  case True
  let ?seg = "rafter (cp CHR ''/'') u"
  from True assms have s: "cp CHR '';'' \<in> set ?seg"
    by (auto simp: splitparams_def Let_def split: if_splits)
  with True assms have e: "a = take (length u - length ?seg) u @ before (cp CHR '';'') ?seg"
    "b = after (cp CHR '';'') ?seg"
    by (auto simp: splitparams_def Let_def split: if_splits)
  have "a @ cp CHR '';'' # b = take (length u - length ?seg) u @ (before (cp CHR '';'') ?seg @ cp CHR '';'' # after (cp CHR '';'') ?seg)"
    unfolding e by simp
  also have "\<dots> = take (length u - length ?seg) u @ ?seg" using s by (simp only: before_after)
  also have "\<dots> = u" using True take_rafter by blast
  finally show ?thesis .
next
  case False
  with assms have e: "a = before (cp CHR '';'') u" "b = after (cp CHR '';'') u"
    by (auto simp: splitparams_def)
  show ?thesis unfolding e using assms(3) by (rule before_after)
qed

lemma splitparams_fix:
  assumes "splitparams u = (a, [])" "cp CHR '';'' \<in> set a" "cp CHR '';'' \<in> set u"
  shows "splitparams a = (a, [])"
proof (cases "cp CHR ''/'' \<in> set u")
  case True
  let ?seg = "rafter (cp CHR ''/'') u"
  let ?d = "take (length u - length ?seg) u"
  show ?thesis
  proof (cases "cp CHR '';'' \<in> set ?seg")
    case s: True
    with True assms have e: "a = ?d @ before (cp CHR '';'') ?seg"
      by (auto simp: splitparams_def Let_def split: if_splits)
    from True obtain d' where d': "?d = d' @ [cp CHR ''/'']"
      using take_rafter [of "cp CHR ''/''" u] by blast
    have n: "cp CHR ''/'' \<notin> set (before (cp CHR '';'') ?seg)"
      using notin_rafter [of "cp CHR ''/''" u] set_before [of "cp CHR '';''" ?seg] by blast
    have a': "a = d' @ cp CHR ''/'' # before (cp CHR '';'') ?seg" unfolding e d' by simp
    have r: "rafter (cp CHR ''/'') a = before (cp CHR '';'') ?seg"
      unfolding a' using n by (rule rafter_app)
    have "cp CHR ''/'' \<in> set a" unfolding a' by simp
    moreover have "cp CHR '';'' \<notin> set (rafter (cp CHR ''/'') a)" unfolding r by (rule notin_before)
    ultimately show ?thesis by (simp add: splitparams_def Let_def)
  next
    case False
    with True assms have "a = u" by (auto simp: splitparams_def Let_def)
    with assms show ?thesis by simp
  qed
next
  case False
  with assms have "a = before (cp CHR '';'') u" by (auto simp: splitparams_def)
  with assms(2) notin_before show ?thesis by blast
qed

lemma pp_idem: "pp sch u = (a, b) \<Longrightarrow> pp sch (join_params a b) = (a, b)"
proof (cases "b = []")
  case False
  assume h: "pp sch u = (a, b)"
  with False have s: "splitparams u = (a, b)" and i: "cp CHR '';'' \<in> set u"
    by (auto simp: pp_def split: if_splits)
  from s False i have "a @ cp CHR '';'' # b = u" by (rule splitparams_join)
  then have "join_params a b = u" using False by (simp add: join_params_def str_def)
  with h show ?thesis by simp
next
  case True
  assume h: "pp sch u = (a, b)"
  have j: "join_params a b = a" using True by (simp add: join_params_def)
  show ?thesis
  proof (cases "sch \<in> set uses_params \<and> cp CHR '';'' \<in> set a")
    case c: True
    show ?thesis
    proof (cases "sch \<in> set uses_params \<and> cp CHR '';'' \<in> set u")
      case True
      with h have "splitparams u = (a, [])" using \<open>b = []\<close> by (simp add: pp_def)
      then have "splitparams a = (a, [])" using c True splitparams_fix [of u a] by simp
      then show ?thesis unfolding j using c True \<open>b = []\<close> by (simp add: pp_def)
    next
      case False
      with h have "a = u" by (auto simp: pp_def)
      with h j show ?thesis by simp
    qed
  next
    case False
    then show ?thesis unfolding j using True by (auto simp: pp_def)
  qed
qed

lemma splitparams_set:
  assumes "splitparams u = (a, b)"
  shows "set a \<subseteq> set u \<and> set b \<subseteq> set u"
proof -
  let ?seg = "rafter (cp CHR ''/'') u"
  have 1: "set (before (cp CHR '';'') ?seg) \<subseteq> set u" "set (after (cp CHR '';'') ?seg) \<subseteq> set u"
    using set_before [of "cp CHR '';''" ?seg] set_after [of "cp CHR '';''" ?seg]
      set_rafter [of "cp CHR ''/''" u] by auto
  have 2: "set (take (length u - length ?seg) u) \<subseteq> set u" by (rule set_take_subset)
  have 3: "set (before (cp CHR '';'') u) \<subseteq> set u" "set (after (cp CHR '';'') u) \<subseteq> set u"
    by (rule set_before, rule set_after)
  have 4: "set (butlast u) \<subseteq> set u" by (auto dest: in_set_butlastD)
  from assms consider "a = take (length u - length ?seg) u @ before (cp CHR '';'') ?seg \<and> b = after (cp CHR '';'') ?seg"
    | "a = u \<and> b = []" | "a = before (cp CHR '';'') u \<and> b = after (cp CHR '';'') u"
    | "a = butlast u \<and> b = u"
    by (auto simp: splitparams_def Let_def split: if_splits)
  then show ?thesis
  proof cases
    case 1
    then show ?thesis using \<open>set (before (cp CHR '';'') ?seg) \<subseteq> set u\<close>
      \<open>set (after (cp CHR '';'') ?seg) \<subseteq> set u\<close> 2 by simp
  next
    case 2
    then show ?thesis by simp
  next
    case 3
    then show ?thesis using \<open>set (before (cp CHR '';'') u) \<subseteq> set u\<close>
      \<open>set (after (cp CHR '';'') u) \<subseteq> set u\<close> by simp
  next
    case 4
    then show ?thesis using \<open>set (butlast u) \<subseteq> set u\<close> by simp
  qed
qed

lemma pp_set: "pp sch u = (a, b) \<Longrightarrow> set a \<subseteq> set u \<and> set b \<subseteq> set u"
  using splitparams_set [of u a b] by (auto simp: pp_def split: if_splits)

lemma pp_hd:
  assumes "pp sch u = (a, b)" "u = [] \<or> hd u = cp CHR ''/''"
  shows "(a = [] \<and> b = []) \<or> (a \<noteq> [] \<and> hd a = cp CHR ''/'')"
proof (cases "u = []")
  case True
  with assms show ?thesis by (simp add: pp_def)
next
  case False
  with assms(2) obtain t where u: "u = cp CHR ''/'' # t" by (cases u) auto
  show ?thesis
  proof (cases "sch \<in> set uses_params \<and> cp CHR '';'' \<in> set u")
    case True
    let ?seg = "rafter (cp CHR ''/'') u"
    let ?d = "take (length u - length ?seg) u"
    have su: "cp CHR ''/'' \<in> set u" unfolding u by simp
    then have d: "?d \<noteq> []" "?d @ ?seg = u" using take_rafter [of "cp CHR ''/''" u] by auto
    then have "hd ?d = cp CHR ''/''" using u by (metis hd_append2 list.sel(1))
    moreover from assms(1) True su have "a = u \<or> a = ?d @ before (cp CHR '';'') ?seg"
      by (auto simp: pp_def splitparams_def Let_def split: if_splits)
    ultimately show ?thesis using d u by auto
  next
    case False
    with assms(1) u show ?thesis by (auto simp: pp_def)
  qed
qed

subsection \<open>\<open>urlsplit\<close>: what it returns, and that it inverts \<open>urlunsplit\<close>\<close>

lemma part_if: "(if c \<in> set s then (before c s, after c s) else (s, [])) = (before c s, after c s)"
  by (simp add: before_notin after_notin)

lemma urlsplit_SomeD:
  assumes "urlsplit E u0 = Some (sch, nl, pa, q, f)"
  shows "\<exists>u2 u3. split_scheme (filter (\<lambda>c. \<not> unsafe_url_byte c) (dropWhile c0_control_or_space u0)) = (sch, u2)
     \<and> (nl, u3) = (if take 2 u2 = str ''//'' then splitnetloc u2 else ([], u2))
     \<and> \<not> netloc_error E nl
     \<and> pa = before (cp CHR ''?'') (before (cp CHR ''#'') u3)
     \<and> q = after (cp CHR ''?'') (before (cp CHR ''#'') u3)
     \<and> f = after (cp CHR ''#'') u3"
  using assms unfolding urlsplit_def Let_def part_if
  by (auto split: prod.splits if_splits)

lemma opt_split:
  assumes "c \<notin> set a"
  shows "before c (a @ (if b \<noteq> [] then c # b else [])) = a"
    and "after c (a @ (if b \<noteq> [] then c # b else [])) = b"
  using assms by (simp_all add: before_app after_app before_notin after_notin)

lemma tw_stop:
  assumes "\<forall>x \<in> set xs. P x" "ys = [] \<or> \<not> P (hd ys)"
  shows "takeWhile P (xs @ ys) = xs" "dropWhile P (xs @ ys) = ys"
proof -
  have t: "takeWhile P ys = []" "dropWhile P ys = ys" using assms(2) by (cases ys; simp)+
  show "takeWhile P (xs @ ys) = xs" using assms(1) t by (simp add: takeWhile_append2)
  show "dropWhile P (xs @ ys) = ys" using assms(1) t by (simp add: dropWhile_append2)
qed

lemma splitnetloc_rest:
  "splitnetloc u = (nl, r) \<Longrightarrow> (r = [] \<or> netloc_delim (hd r)) \<and> set r \<subseteq> set u"
proof -
  assume "splitnetloc u = (nl, r)"
  then have r: "r = dropWhile (\<lambda>c. \<not> netloc_delim c) (drop 2 u)" by (simp add: splitnetloc_def)
  have "r = [] \<or> netloc_delim (hd r)" unfolding r using hd_dropWhile [of "\<lambda>c. \<not> netloc_delim c" "drop 2 u"] by blast
  moreover have "set r \<subseteq> set u" unfolding r by (auto dest: set_dropWhileD in_set_dropD)
  ultimately show ?thesis by simp
qed

lemma path_start:
  assumes "r = [] \<or> netloc_delim (hd r)"
  shows "before (cp CHR ''?'') (before (cp CHR ''#'') r) = []
         \<or> hd (before (cp CHR ''?'') (before (cp CHR ''#'') r)) = cp CHR ''/''"
proof (cases r)
  case Nil
  then show ?thesis by (simp add: before_def)
next
  case (Cons x t)
  with assms have "x = cp CHR ''/'' \<or> x = cp CHR ''?'' \<or> x = cp CHR ''#''" by (simp add: netloc_delim_def)
  then show ?thesis unfolding Cons by (auto simp: before_def)
qed

lemma urlsplit_facts:
  assumes "urlsplit E u0 = Some (sch, nl, pa, q, f)"
  shows "sch = [] \<or> valid_scheme sch"
    and "\<forall>c \<in> set pa \<union> set q \<union> set f. \<not> unsafe_url_byte c"
    and "cp CHR ''#'' \<notin> set pa" and "cp CHR ''#'' \<notin> set q" and "cp CHR ''?'' \<notin> set pa"
    and "nl \<noteq> [] \<Longrightarrow> pa = [] \<or> hd pa = cp CHR ''/''"
proof -
  let ?u1 = "filter (\<lambda>c. \<not> unsafe_url_byte c) (dropWhile c0_control_or_space u0)"
  from urlsplit_SomeD [OF assms] obtain u2 u3 where
    s: "split_scheme ?u1 = (sch, u2)"
    and n: "(nl, u3) = (if take 2 u2 = str ''//'' then splitnetloc u2 else ([], u2))"
    and pa: "pa = before (cp CHR ''?'') (before (cp CHR ''#'') u3)"
    and q: "q = after (cp CHR ''?'') (before (cp CHR ''#'') u3)"
    and f: "f = after (cp CHR ''#'') u3" by blast
  from split_scheme_cases [OF s] show "sch = [] \<or> valid_scheme sch" by blast
  from split_scheme_cases [OF s] have u2: "set u2 \<subseteq> set ?u1" by auto
  have u3: "set u3 \<subseteq> set u2" using n splitnetloc_rest [of u2 nl u3] by (auto split: if_splits)
  have b: "set (before (cp CHR ''#'') u3) \<subseteq> set u3" by (rule set_before)
  have "set pa \<subseteq> set u3" unfolding pa using set_before [of "cp CHR ''?''" "before (cp CHR ''#'') u3"] b by blast
  moreover have "set q \<subseteq> set u3" unfolding q using set_after [of "cp CHR ''?''" "before (cp CHR ''#'') u3"] b by blast
  moreover have "set f \<subseteq> set u3" unfolding f by (rule set_after)
  ultimately have "set pa \<union> set q \<union> set f \<subseteq> set ?u1" using u2 u3 by blast
  then show "\<forall>c \<in> set pa \<union> set q \<union> set f. \<not> unsafe_url_byte c" by auto
  have nb: "cp CHR ''#'' \<notin> set (before (cp CHR ''#'') u3)" by (rule notin_before)
  show "cp CHR ''#'' \<notin> set pa" unfolding pa using nb set_before [of "cp CHR ''?''" "before (cp CHR ''#'') u3"] by blast
  show "cp CHR ''#'' \<notin> set q" unfolding q using nb set_after [of "cp CHR ''?''" "before (cp CHR ''#'') u3"] by blast
  show "cp CHR ''?'' \<notin> set pa" unfolding pa by (rule notin_before)
  show "pa = [] \<or> hd pa = cp CHR ''/''" if "nl \<noteq> []"
  proof -
    from that n have "splitnetloc u2 = (nl, u3)" by (auto split: if_splits)
    then have "u3 = [] \<or> netloc_delim (hd u3)" using splitnetloc_rest by blast
    then show ?thesis unfolding pa by (rule path_start)
  qed
qed

lemma plain_host_ok: "plain_host m \<Longrightarrow> \<not> netloc_error E m"
  by (auto simp: plain_host_def netloc_error_def checknetloc_def list_all_iff)

lemma valid_scheme_safe: "valid_scheme sch \<Longrightarrow> c \<in> set sch \<Longrightarrow> \<not> unsafe_url_byte c \<and> \<not> c0_control_or_space c"
  by (auto simp: valid_scheme_def list_all_iff scheme_char_def ascii_alpha_def unsafe_url_byte_def c0_control_or_space_def)

lemma urlsplit_rebuild:
  assumes sch: "sch = [] \<or> valid_scheme sch"
    and m: "plain_host m"
    and J: "J = [] \<or> hd J = cp CHR ''/''"
    and safe: "\<forall>c \<in> set J \<union> set q \<union> set f. \<not> unsafe_url_byte c"
    and h: "cp CHR ''#'' \<notin> set J" "cp CHR ''#'' \<notin> set q" "cp CHR ''?'' \<notin> set J"
  shows "urlsplit E (urlunsplit (sch, m, J, q, f)) = Some (sch, m, J, q, f)"
proof -
  define Q where "Q = (if q \<noteq> [] then cp CHR ''?'' # q else [])"
  define F where "F = (if f \<noteq> [] then cp CHR ''#'' # f else [])"
  define R where "R = (J @ Q) @ F"
  define N where "N = str ''//'' @ m @ R"
  define U where "U = (if sch \<noteq> [] then sch @ cp CHR '':'' # N else N)"
  have mne: "m \<noteq> []" using m by (simp add: plain_host_def)
  have t1: "\<not> (J \<noteq> [] \<and> take 1 J \<noteq> str ''/'')" using J by (cases J) (auto simp: str_def)
  have un: "urlunsplit (sch, m, J, q, f) = U"
    unfolding urlunsplit_def U_def N_def R_def Q_def F_def using mne t1
    by (simp add: Let_def str_def)
  have safeU: "\<forall>c \<in> set U. \<not> unsafe_url_byte c"
    using safe m sch valid_scheme_safe [of sch]
    unfolding U_def N_def R_def Q_def F_def
    by (auto simp: plain_host_def list_all_iff str_def unsafe_url_byte_def)
  have hdU: "U \<noteq> [] \<and> \<not> c0_control_or_space (hd U)"
  proof (cases "sch = []")
    case True
    then show ?thesis unfolding U_def N_def by (simp add: str_def c0_control_or_space_def)
  next
    case False
    with sch have v: "valid_scheme sch" by simp
    then have "hd sch \<in> set sch" using False by simp
    with v have "\<not> c0_control_or_space (hd sch)" using valid_scheme_safe by blast
    then show ?thesis unfolding U_def using False by simp
  qed
  then have dU: "dropWhile c0_control_or_space U = U" by (cases U) auto
  have fU: "filter (\<lambda>c. \<not> unsafe_url_byte c) U = U" using safeU by (simp add: filter_id_conv)
  have ss: "split_scheme U = (sch, N)"
  proof (cases "sch = []")
    case True
    then show ?thesis unfolding U_def N_def using split_scheme_slash by (simp add: str_def)
  next
    case False
    with sch have "valid_scheme sch" by simp
    then show ?thesis unfolding U_def using False split_scheme_rebuild [of sch N] by simp
  qed
  have t2: "take 2 N = str ''//''" unfolding N_def by (simp add: str_def)
  have Rd: "R = [] \<or> \<not> \<not> netloc_delim (hd R)"
    using J unfolding R_def Q_def F_def by (cases J) (auto simp: netloc_delim_def)
  have mP: "\<forall>x \<in> set m. \<not> netloc_delim x" using m by (simp add: plain_host_def list_all_iff)
  have sn: "splitnetloc N = (m, R)"
    unfolding splitnetloc_def N_def using tw_stop [OF mP Rd] by (simp add: str_def)
  have ne: "\<not> netloc_error E m" using m by (rule plain_host_ok)
  have nJQ: "cp CHR ''#'' \<notin> set (J @ Q)" using h unfolding Q_def by auto
  have bf: "before (cp CHR ''#'') R = J @ Q" and af: "after (cp CHR ''#'') R = f"
    unfolding R_def F_def using opt_split [OF nJQ] by auto
  have bq: "before (cp CHR ''?'') (J @ Q) = J" and aq: "after (cp CHR ''?'') (J @ Q) = q"
    unfolding Q_def using opt_split [OF h(3)] by auto
  show ?thesis
    unfolding un urlsplit_def dU fU Let_def ss prod.case t2 sn part_if
    using ne bf af bq aq by simp
qed

subsection \<open>\<open>urlparse\<close> after \<open>urlunparse\<close> with a mirror host\<close>

lemma urlparse_SomeD:
  assumes "urlparse E u = Some p"
  shows "\<exists>pa0. urlsplit E u = Some (scheme p, netloc p, pa0, query p, fragment p)
               \<and> pp (scheme p) pa0 = (path p, params p)"
  using assms unfolding urlparse_def pp_def
  by (auto split: option.splits prod.splits if_splits simp: Let_def)

lemma urlparse_path_start:
  assumes "urlparse E u = Some p" "netloc p \<noteq> []"
  shows "(path p = [] \<and> params p = []) \<or> (path p \<noteq> [] \<and> hd (path p) = cp CHR ''/'')"
proof -
  from urlparse_SomeD [OF assms(1)] obtain pa0 where
    s: "urlsplit E u = Some (scheme p, netloc p, pa0, query p, fragment p)"
    and p: "pp (scheme p) pa0 = (path p, params p)" by blast
  from urlsplit_facts(6) [OF s assms(2)] have "pa0 = [] \<or> hd pa0 = cp CHR ''/''" .
  with p show ?thesis by (rule pp_hd)
qed

lemma urlparse_roundtrip:
  assumes u: "urlparse E u = Some p" and m: "plain_host m"
    and st: "(path p = [] \<and> params p = []) \<or> (path p \<noteq> [] \<and> hd (path p) = cp CHR ''/'')"
  shows "urlparse E' (urlunparse (p\<lparr>netloc := m\<rparr>)) = Some (p\<lparr>netloc := m\<rparr>)"
proof -
  from urlparse_SomeD [OF u] obtain pa0 where
    s: "urlsplit E u = Some (scheme p, netloc p, pa0, query p, fragment p)"
    and p: "pp (scheme p) pa0 = (path p, params p)" by blast
  define J where "J = join_params (path p) (params p)"
  note f = urlsplit_facts [OF s]
  from pp_set [OF p] have sub: "set (path p) \<subseteq> set pa0" "set (params p) \<subseteq> set pa0" by auto
  have setJ: "set J \<subseteq> insert (cp CHR '';'') (set pa0)"
    unfolding J_def join_params_def using sub by (auto simp: str_def)
  have J1: "J = [] \<or> hd J = cp CHR ''/''"
    using st unfolding J_def join_params_def by auto
  have J2: "\<forall>c \<in> set J \<union> set (query p) \<union> set (fragment p). \<not> unsafe_url_byte c"
    using f(2) setJ by (auto simp: unsafe_url_byte_def)
  have J3: "cp CHR ''#'' \<notin> set J" using f(3) setJ by auto
  have J4: "cp CHR ''?'' \<notin> set J" using f(5) setJ by auto
  have un: "urlunparse (p\<lparr>netloc := m\<rparr>) = urlunsplit (scheme p, m, J, query p, fragment p)"
    by (simp add: urlunparse_def J_def join_params_def)
  have rs: "urlsplit E' (urlunsplit (scheme p, m, J, query p, fragment p))
              = Some (scheme p, m, J, query p, fragment p)"
    using f(1) m J1 J2 J3 f(4) J4 by (rule urlsplit_rebuild)
  have pj: "pp (scheme p) J = (path p, params p)" unfolding J_def using p by (rule pp_idem)
  have "urlparse E' (urlunparse (p\<lparr>netloc := m\<rparr>))
          = Some \<lparr>scheme = scheme p, netloc = m, path = path p, params = params p,
                   query = query p, fragment = fragment p\<rparr>"
    unfolding un urlparse_def rs using pj by (simp add: pp_def)
  then show ?thesis by simp
qed

lemmas host_defs = hostname_def hostinfo_def rafter_def before_def after_def lower_def lower_cp_def
  str_def Let_def

lemma mirror_hosts:
  assumes "(k, m) \<in> set DEFAULT_MIRRORS"
  shows "plain_host m" and "hostname (p\<lparr>netloc := m\<rparr>) = Some m" and "lower m = m"
    and "m \<in> SKIP_HOSTS" and "m \<noteq> []"
proof -
  from assms have c: "m = str ''fixupx.com'' \<or> m = str ''kkinstagram.com'' \<or> m = str ''rxddit.com''
      \<or> m = str ''vxtiktok.com'' \<or> m = str ''bskx.app''"
    by (auto simp: DEFAULT_MIRRORS_def)
  show "plain_host m" using c
    by (auto simp: plain_host_def str_def netloc_delim_def unsafe_url_byte_def)
  show "hostname (p\<lparr>netloc := m\<rparr>) = Some m" using c by (auto simp: host_defs)
  show "lower m = m" using c by (auto simp: host_defs)
  show "m \<in> SKIP_HOSTS" using c by (auto simp: SKIP_HOSTS_def)
  show "m \<noteq> []" using c by (auto simp: str_def)
qed

lemma rewrite_one_of_mirror:
  assumes u: "urlparse E u = Some p" and km: "(k, m) \<in> set DEFAULT_MIRRORS"
    and st: "(path p = [] \<and> params p = []) \<or> (path p \<noteq> [] \<and> hd (path p) = cp CHR ''/'')"
  shows "rewrite_one E' (urlunparse (p\<lparr>netloc := m\<rparr>)) = (None, None)"
proof -
  note h = mirror_hosts [OF km]
  have "urlparse E' (urlunparse (p\<lparr>netloc := m\<rparr>)) = Some (p\<lparr>netloc := m\<rparr>)"
    using u h(1) st by (rule urlparse_roundtrip)
  then show ?thesis
    unfolding rewrite_one_def using h(2) [of p] h(3) h(4) by (simp add: Let_def)
qed

subsection \<open>When the rewrite returns a mirror\<close>

lemma hostname_no_netloc: "netloc p = [] \<Longrightarrow> hostname p = None"
  by (simp add: host_defs)

lemma startswith_slash:
  "list_ex (startswith s) SUPPORTED_IG_POST_PREFIXES \<Longrightarrow> s \<noteq> [] \<and> hd s = cp CHR ''/''"
  by (cases s) (auto simp: SUPPORTED_IG_POST_PREFIXES_def startswith_def str_def)

lemma classify_instagram_SomeD:
  assumes "classify_instagram p x = (Some m, c)"
  shows "\<exists>mir. (str ''instagram.com'', mir) \<in> set DEFAULT_MIRRORS \<and> m = urlunparse (p\<lparr>netloc := mir\<rparr>)
           \<and> path p \<noteq> [] \<and> hd (path p) = cp CHR ''/''"
proof -
  from assms have s: "list_ex (startswith (path p)) SUPPORTED_IG_POST_PREFIXES"
    and t: "truthy (map_of DEFAULT_MIRRORS (str ''instagram.com''))"
    and m: "m = urlunparse (p\<lparr>netloc := the (map_of DEFAULT_MIRRORS (str ''instagram.com''))\<rparr>)"
    by (auto simp: classify_instagram_def Let_def split: if_splits)
  from t obtain mir where g: "map_of DEFAULT_MIRRORS (str ''instagram.com'') = Some mir"
    by (auto simp: truthy_def split: option.splits)
  then have "(str ''instagram.com'', mir) \<in> set DEFAULT_MIRRORS" by (rule map_of_SomeD)
  with m g startswith_slash [OF s] show ?thesis by auto
qed

lemma rewrite_instagram_SomeD:
  assumes "rewrite_instagram E url = Inr (Some m, c)"
  shows "\<exists>u p x. urlparse E u = Some p \<and> classify_instagram p x = (Some m, c)"
  using assms unfolding rewrite_instagram_def
  by (auto simp: Let_def split: option.splits if_splits)

lemma rewrite_one_SomeD:
  assumes "rewrite_one E url = (Some m, c)"
  shows "\<exists>u p k mir. urlparse E u = Some p \<and> (k, mir) \<in> set DEFAULT_MIRRORS
           \<and> m = urlunparse (p\<lparr>netloc := mir\<rparr>)
           \<and> ((path p = [] \<and> params p = []) \<or> (path p \<noteq> [] \<and> hd (path p) = cp CHR ''/''))"
proof -
  from assms obtain p where p: "urlparse E url = Some p"
    by (auto simp: rewrite_one_def split: option.splits)
  define host where "host = lower (case hostname p of None \<Rightarrow> [] | Some h \<Rightarrow> h)"
  from assms p have hne: "host \<noteq> []"
    by (auto simp: rewrite_one_def Let_def host_def split: if_splits)
  show ?thesis
  proof (cases "endswith host (str ''instagram.com'')")
    case True
    with assms p have "rewrite_instagram E url = Inr (Some m, c)"
      by (auto simp: rewrite_one_def Let_def host_def split: if_splits sum.splits)
    then obtain u q x where q: "urlparse E u = Some q" "classify_instagram q x = (Some m, c)"
      using rewrite_instagram_SomeD by blast
    from classify_instagram_SomeD [OF q(2)] q(1) show ?thesis by blast
  next
    case False
    with assms p have t: "truthy (map_of DEFAULT_MIRRORS (the (pick_source host)))"
      and m: "m = urlunparse (p\<lparr>netloc := the (map_of DEFAULT_MIRRORS (the (pick_source host)))\<rparr>)"
      by (auto simp: rewrite_one_def Let_def host_def split: if_splits)
    from t obtain mir where g: "map_of DEFAULT_MIRRORS (the (pick_source host)) = Some mir"
      by (auto simp: truthy_def split: option.splits)
    then have i: "(the (pick_source host), mir) \<in> set DEFAULT_MIRRORS" by (rule map_of_SomeD)
    have "netloc p \<noteq> []" using hne hostname_no_netloc [of p] by (auto simp: host_def lower_def)
    with p have "(path p = [] \<and> params p = []) \<or> (path p \<noteq> [] \<and> hd (path p) = cp CHR ''/'')"
      by (rule urlparse_path_start)
    with p i m g show ?thesis by auto
  qed
qed

text \<open>The equations that evaluate a rewrite on a concrete URL.\<close>

lemmas eval_defs = rewrite_one_def rewrite_instagram_def classify_instagram_def
  resolve_instagram_share_def urlparse_def urlsplit_def
  split_scheme_def splitnetloc_def netloc_error_def checknetloc_def
  splitparams_def urlunparse_def urlunsplit_def hostname_def hostinfo_def pick_source_def str_def
  lower_def lower_cp_def endswith_def startswith_def before_def after_def rafter_def truthy_def
  DEFAULT_MIRRORS_def SKIP_HOSTS_def SUPPORTED_IG_POST_PREFIXES_def STORY_PREFIX_def
  c0_control_or_space_def unsafe_url_byte_def ascii_alpha_def scheme_char_def netloc_delim_def
  uses_params_def uses_netloc_def env0_def env1_def env2_def Let_def

subsection \<open>Lower-casing and host classification\<close>

lemma lower_append: "lower (a @ b) = lower a @ lower b"
  by (simp add: lower_def)

lemma lower_cp_idem: "lower (lower_cp c) = lower_cp c"
  by (simp add: lower_def lower_cp_def)

lemma lower_idem: "lower (lower s) = lower s"
proof (induction s)
  case Nil
  show ?case by (simp add: lower_def)
next
  case (Cons c s)
  have "lower (c # s) = lower_cp c @ lower s" by (simp add: lower_def)
  then show ?case using Cons by (simp add: lower_append lower_cp_idem)
qed

lemma endswith_drop:
  assumes "endswith h a" "endswith h b" "length a \<le> length b"
  shows "endswith b a"
proof -
  from assms(2) have b: "b = drop (length h - length b) h" and lb: "length b \<le> length h"
    by (simp_all add: endswith_def)
  from assms(1) have a: "drop (length h - length a) h = a" and la: "length a \<le> length h"
    by (simp_all add: endswith_def)
  have "drop (length b - length a) b = drop (length b - length a) (drop (length h - length b) h)"
    using b by simp
  also have "\<dots> = drop (length h - length a) h" using lb assms(3) by simp
  finally show ?thesis using a assms(3) by (simp add: endswith_def)
qed

lemma instagram_exclusive:
  assumes "endswith h (str ''instagram.com'')"
  shows "\<not> endswith h (str ''twitter.com'')" and "\<not> endswith h (str ''x.com'')"
proof -
  show "\<not> endswith h (str ''twitter.com'')"
  proof
    assume "endswith h (str ''twitter.com'')"
    then have "endswith (str ''instagram.com'') (str ''twitter.com'')"
      using assms endswith_drop [of h "str ''twitter.com''" "str ''instagram.com''"] by (simp add: str_def)
    then show False by (simp add: endswith_def str_def)
  qed
  show "\<not> endswith h (str ''x.com'')"
  proof
    assume "endswith h (str ''x.com'')"
    then have "endswith (str ''instagram.com'') (str ''x.com'')"
      using assms endswith_drop [of h "str ''x.com''" "str ''instagram.com''"] by (simp add: str_def)
    then show False by (simp add: endswith_def str_def)
  qed
qed

lemma pick_source_instagram:
  "endswith (lower h) (str ''instagram.com'') \<Longrightarrow> pick_source h = Some (str ''instagram.com'')"
  using instagram_exclusive [of "lower h"] by (simp add: pick_source_def Let_def)

lemma pick_source_mirror:
  assumes "pick_source h = Some k"
  shows "\<exists>m. map_of DEFAULT_MIRRORS k = Some m \<and> (k, m) \<in> set DEFAULT_MIRRORS" and "k \<noteq> []"
proof -
  from assms have "k = str ''x.com'' \<or> k = str ''instagram.com'' \<or> k = str ''reddit.com''
      \<or> k = str ''tiktok.com'' \<or> k = str ''bsky.app''"
    by (auto simp: pick_source_def Let_def split: if_splits)
  then show "\<exists>m. map_of DEFAULT_MIRRORS k = Some m \<and> (k, m) \<in> set DEFAULT_MIRRORS" and "k \<noteq> []"
    by (auto simp: DEFAULT_MIRRORS_def str_def)
qed

lemma pick_source_nonempty: "pick_source h = Some k \<Longrightarrow> lower h \<noteq> []"
  by (auto simp: pick_source_def Let_def endswith_def str_def split: if_splits)

subsection \<open>Stories and the rewrite phase\<close>

lemma classify_instagram_story:
  "startswith (path p) STORY_PREFIX \<Longrightarrow> classify_instagram p x = (None, Some x)"
  by (simp add: classify_instagram_def)

lemma rewrite_phase_mirror:
  "t \<in> set (rewrite_phase E links seen) \<Longrightarrow> truthy (fst (rewrite_one E (fst t)))"
proof (induction links arbitrary: seen)
  case Nil
  then show ?case by simp
next
  case (Cons l links)
  show ?case
  proof (cases "l \<in> seen")
    case True
    with Cons.prems have "t \<in> set (rewrite_phase E links seen)" by simp
    then show ?thesis by (rule Cons.IH)
  next
    case False
    obtain m c where r: "rewrite_one E l = (m, c)" by (cases "rewrite_one E l")
    from Cons.prems False r
    have "(truthy m \<and> t = (l, the m, c)) \<or> t \<in> set (rewrite_phase E links (insert l seen))"
      by (auto split: if_splits)
    then show ?thesis
    proof
      assume "truthy m \<and> t = (l, the m, c)"
      with r show ?thesis by simp
    next
      assume "t \<in> set (rewrite_phase E links (insert l seen))"
      then show ?thesis by (rule Cons.IH)
    qed
  qed
qed

section \<open>Formatting and text\<close>

text \<open>The loop of \<open>_format_repost\<close> appends the lines of the blocks in order.\<close>

lemma repost_fold:
  "foldl (\<lambda>lines b. lines @ map Some (block_lines b)) acc blocks
     = acc @ map Some (concat (map block_lines blocks))"
  by (induction blocks arbitrary: acc) simp_all

text \<open>
  Joining with line feeds puts a line feed before every line but the first, so the text of
  a block in the output is each of its lines with a line feed in front.
\<close>

lemma join_nl_Cons: "join_nl (x # xs) = x @ concat (map (\<lambda>l. 10 # l) xs)"
  by (induction xs arbitrary: x) simp_all

lemma block_text:
  "concat (map (\<lambda>l. 10 # l) (block_lines (orig, mirror, ig_author, ig_caption)))
     = (if truthy ig_author then [10] @ str ''**Author:** '' @ the ig_author else [])
       @ (if truthy ig_caption then [10] @ str ''**Caption:** '' @ the ig_caption else [])
       @ [10] @ str ''[Original Link](<'' @ orig @ str ''>) | [Embed Link]('' @ mirror @ str '')''"
  by (simp add: block_lines_def)

lemma blocks_text:
  "concat (map (\<lambda>l. 10 # l) (concat (map block_lines blocks)))
     = concat (map (\<lambda>(orig, mirror, ig_author, ig_caption).
         (if truthy ig_author then [10] @ str ''**Author:** '' @ the ig_author else [])
         @ (if truthy ig_caption then [10] @ str ''**Caption:** '' @ the ig_caption else [])
         @ [10] @ str ''[Original Link](<'' @ orig @ str ''>) | [Embed Link]('' @ mirror @ str '')'')
        blocks)"
proof (induction blocks)
  case Nil
  show ?case by simp
next
  case (Cons b blocks)
  obtain orig mirror a c where b: "b = (orig, mirror, a, c)" by (cases b)
  show ?case using Cons block_text [of orig mirror a c] unfolding b by simp
qed

lemma blocks_text_start:
  "concat (map (\<lambda>l. 10 # l) (concat (map block_lines blocks))) = []
   \<or> hd (concat (map (\<lambda>l. 10 # l) (concat (map block_lines blocks)))) = 10"
proof (cases blocks)
  case Nil
  then show ?thesis by simp
next
  case (Cons b bs)
  obtain orig mirror a c where b: "b = (orig, mirror, a, c)" by (cases b)
  show ?thesis unfolding Cons b by (simp add: block_lines_def)
qed

subsection \<open>Whitespace normalisation is idempotent\<close>

lemma wsnorm_Cons: "\<not> is_space c \<Longrightarrow> wsnorm (c # s) = wsnorm s"
  by (cases s) simp_all

lemma collapse_hd:
  "s = [] \<or> \<not> is_space (hd s) \<Longrightarrow> collapse_ws s = [] \<or> \<not> is_space (hd (collapse_ws s))"
  by (cases s) auto

lemma dropWhile_hd: "dropWhile P s = [] \<or> \<not> P (hd (dropWhile P s))"
  using hd_dropWhile [of P s] by blast

lemma wsnorm_collapse: "wsnorm (collapse_ws s)"
proof (induction s rule: collapse_ws.induct)
  case 1
  show ?case by simp
next
  case (2 c s)
  show ?case
  proof (cases "is_space c")
    case True
    let ?r = "collapse_ws (dropWhile is_space s)"
    have h: "?r = [] \<or> \<not> is_space (hd ?r)" using dropWhile_hd collapse_hd by blast
    have n: "wsnorm ?r" using 2 True by simp
    have "wsnorm (cp CHR '' '' # ?r)" using h n by (cases ?r) simp_all
    then show ?thesis using True by simp
  next
    case False
    then show ?thesis using 2 by (simp add: wsnorm_Cons)
  qed
qed

lemma collapse_wsnorm: "wsnorm s \<Longrightarrow> collapse_ws s = s"
  by (induction s rule: wsnorm.induct) auto

lemma wsnorm_append: "wsnorm (a @ b) \<Longrightarrow> wsnorm a \<and> wsnorm b"
proof (induction a rule: wsnorm.induct)
  case 1
  then show ?case by simp
next
  case (2 c)
  then show ?case by (cases b) auto
next
  case (3 c d s)
  then show ?case by auto
qed

lemma rev_split: "xs = rev (dropWhile P (rev xs)) @ rev (takeWhile P (rev xs))"
proof -
  have "rev (takeWhile P (rev xs) @ dropWhile P (rev xs)) = rev (rev xs)"
    by (simp only: takeWhile_dropWhile_id)
  then show ?thesis by (simp only: rev_append rev_rev_ident)
qed

lemma strip_parts: "\<exists>a b. s = a @ strip s @ b"
proof -
  let ?d = "dropWhile is_space s"
  have 1: "s = takeWhile is_space s @ ?d" by simp
  have 2: "?d = strip s @ rev (takeWhile is_space (rev ?d))"
    unfolding strip_def by (rule rev_split)
  from 1 2 show ?thesis by metis
qed

lemma strip_trimmed: "trimmed (strip s)"
proof (cases "strip s = []")
  case True
  then show ?thesis by (simp add: trimmed_def)
next
  case False
  let ?d = "dropWhile is_space s"
  let ?e = "dropWhile is_space (rev ?d)"
  have s: "strip s = rev ?e" by (simp add: strip_def)
  with False have ene: "?e \<noteq> []" by simp
  then have "\<not> is_space (hd ?e)" using dropWhile_hd [of is_space "rev ?d"] by blast
  then have l: "\<not> is_space (last (strip s))" using ene unfolding s by (simp add: last_rev)
  have d: "?d = strip s @ rev (takeWhile is_space (rev ?d))"
    unfolding strip_def by (rule rev_split)
  then have "hd ?d = hd (strip s)" using False by (metis hd_append2)
  moreover have "?d \<noteq> []"
  proof
    assume "?d = []"
    with d have "strip s @ rev (takeWhile is_space (rev ?d)) = []" by (simp only:)
    with False show False by simp
  qed
  ultimately have "\<not> is_space (hd (strip s))" using dropWhile_hd [of is_space s] by auto
  with l show ?thesis by (simp add: trimmed_def)
qed

lemma strip_of_trimmed: "trimmed s \<Longrightarrow> strip s = s"
proof (cases "s = []")
  case True
  then show ?thesis by (simp add: strip_def)
next
  case False
  assume "trimmed s"
  with False have h: "\<not> is_space (hd s)" and l: "\<not> is_space (last s)" by (simp_all add: trimmed_def)
  have 1: "dropWhile is_space s = s" using h False by (cases s) auto
  obtain y ys where r: "rev s = y # ys" using False by (cases "rev s") auto
  then have "y = last s" using False by (metis hd_rev list.sel(1))
  then have 2: "dropWhile is_space (rev s) = rev s" using l unfolding r by simp
  show ?thesis unfolding strip_def 1 2 by simp
qed

lemma compact_ws_idem: "compact_ws (Some (compact_ws s)) = compact_ws s"
proof -
  let ?x = "collapse_ws (case s of None \<Rightarrow> [] | Some t \<Rightarrow> t)"
  obtain a b where "?x = a @ strip ?x @ b" using strip_parts by blast
  then have "wsnorm (a @ strip ?x @ b)" using wsnorm_collapse [of "case s of None \<Rightarrow> [] | Some t \<Rightarrow> t"] by simp
  then have "wsnorm (strip ?x)" using wsnorm_append by blast
  then have "collapse_ws (strip ?x) = strip ?x" by (rule collapse_wsnorm)
  moreover have "strip (strip ?x) = strip ?x" using strip_trimmed by (rule strip_of_trimmed)
  ultimately show ?thesis by (simp add: compact_ws_def)
qed

subsection \<open>The author of a matching title is not empty\<close>

lemma find_author_prefix:
  "find_author acc s = Some (g1, g2) \<Longrightarrow> \<exists>c r. s = c # r \<and> take (Suc (length acc)) g1 = acc @ [c]"
proof (induction s arbitrary: acc)
  case Nil
  then show ?case by simp
next
  case (Cons c r)
  show ?case
  proof (cases "match_after_author r")
    case None
    with Cons.prems have "find_author (acc @ [c]) r = Some (g1, g2)" by (simp split: if_splits)
    from Cons.IH [OF this] obtain c' r' where "take (Suc (length (acc @ [c]))) g1 = (acc @ [c]) @ [c']" by blast
    then have "take (Suc (length acc)) (take (Suc (length (acc @ [c]))) g1) = acc @ [c]" by simp
    then have "take (Suc (length acc)) g1 = acc @ [c]" by (simp add: min_def)
    then show ?thesis by blast
  next
    case (Some cap)
    with Cons.prems have "g1 = acc @ [c]" by (simp split: if_splits)
    then show ?thesis by simp
  qed
qed

lemma title_author_nonempty:
  assumes "ig_title_match (strip t) = Some (g1, g2)"
  shows "compact_ws (Some g1) \<noteq> []"
proof -
  from assms have "find_author [] (strip t) = Some (g1, g2)" by (simp add: ig_title_match_def)
  from find_author_prefix [OF this] obtain c r where s: "strip t = c # r" and g: "take (Suc 0) g1 = [c]"
    by auto
  from g obtain g' where g1: "g1 = c # g'" by (cases g1) auto
  have "trimmed (strip t)" by (rule strip_trimmed)
  with s have nc: "\<not> is_space c" by (simp add: trimmed_def)
  have "collapse_ws g1 = c # collapse_ws g'" using nc g1 by simp
  moreover have "strip (c # x) \<noteq> []" for x
  proof -
    have "dropWhile is_space (rev x @ [c]) \<noteq> []" using nc by (simp add: dropWhile_append)
    then show ?thesis using nc by (simp add: strip_def)
  qed
  ultimately show ?thesis by (simp add: compact_ws_def)
qed

text \<open>The equations that evaluate the extraction on a concrete page.\<close>

lemmas meta_defs = extract_og_twitter_meta_def og_title_of_def og_desc_of_def meta_def find_meta_def
  parse_ig_from_og_def ig_title_match_def match_after_author_def tail_ok_def compact_ws_def strip_def
  is_space_def finish_author_def finish_caption_def ld_script_def ld_item_def jget_def py_or_def
  of_opt_def truncate_def slice_to_def MAX_LEN_def truthy_def startswith_def str_def Let_def

section \<open>The claims\<close>

text \<open>
  C1. Rewriting is idempotent at the output: whenever \<open>_rewrite_one\<close> returns a mirror
  URL, \<open>_rewrite_one\<close> applied to that mirror URL returns no mirror and no canonical URL,
  whatever the network answers then; and every mirror host of \<open>DEFAULT_MIRRORS\<close> is a
  member of \<open>SKIP_HOSTS\<close>.
\<close>

theorem rewrite_idempotent:
  assumes "rewrite_one E url = (Some m, c)"
  shows "rewrite_one E' m = (None, None) \<and> snd ` set DEFAULT_MIRRORS \<subseteq> SKIP_HOSTS"
proof -
  from rewrite_one_SomeD [OF assms] obtain u p k mir where
    "urlparse E u = Some p" "(k, mir) \<in> set DEFAULT_MIRRORS" "m = urlunparse (p\<lparr>netloc := mir\<rparr>)"
    "(path p = [] \<and> params p = []) \<or> (path p \<noteq> [] \<and> hd (path p) = cp CHR ''/'')" by blast
  then have "rewrite_one E' m = (None, None)" using rewrite_one_of_mirror by blast
  moreover have "snd ` set DEFAULT_MIRRORS \<subseteq> SKIP_HOSTS" using mirror_hosts(4) by auto
  ultimately show ?thesis by simp
qed

theorem rewrite_idempotent_witness:
  "rewrite_one env0 (str ''https://x.com/user/status/1'')
     = (Some (str ''https://fixupx.com/user/status/1''), None)
   \<and> rewrite_one env0 (str ''https://fixupx.com/user/status/1'') = (None, None)"
proof -
  have h: "rewrite_one env0 (str ''https://x.com/user/status/1'')
             = (Some (str ''https://fixupx.com/user/status/1''), None)"
    by (simp add: eval_defs)
  from rewrite_idempotent [OF h, of env0] h show ?thesis by simp
qed

text \<open>
  C2, as stated: for every source key of the mirror table, its mirror host is not a member
  of \<open>SKIP_HOSTS\<close>. The code has it the other way round: the mirror host of \<open>x.com\<close> is
  in \<open>SKIP_HOSTS\<close>.
\<close>

theorem mirror_values_in_skip_counterexample:
  "map_of DEFAULT_MIRRORS (str ''x.com'') = Some (str ''fixupx.com'')
   \<and> str ''fixupx.com'' \<in> SKIP_HOSTS"
  by (simp add: DEFAULT_MIRRORS_def SKIP_HOSTS_def str_def)

text \<open>
  C2, amended: the two tables are constants, and for every source key \<open>k\<close> of the mirror
  table, \<open>k\<close> itself is not a member of \<open>SKIP_HOSTS\<close> (no source host is skipped), while
  its mirror host is a member of \<open>SKIP_HOSTS\<close> (no mirror host is rewritten again).
\<close>

theorem mirror_keys_not_skipped:
  "map_of DEFAULT_MIRRORS k = Some m \<Longrightarrow> k \<notin> SKIP_HOSTS \<and> m \<in> SKIP_HOSTS"
proof -
  assume a: "map_of DEFAULT_MIRRORS k = Some m"
  then have i: "(k, m) \<in> set DEFAULT_MIRRORS" by (rule map_of_SomeD)
  then have "k \<notin> SKIP_HOSTS" by (auto simp: DEFAULT_MIRRORS_def SKIP_HOSTS_def str_def)
  with mirror_hosts(4) [OF i] show ?thesis by simp
qed

theorem mirror_keys_not_skipped_witness:
  "map_of DEFAULT_MIRRORS (str ''reddit.com'') = Some (str ''rxddit.com'')
   \<and> str ''reddit.com'' \<notin> SKIP_HOSTS \<and> str ''rxddit.com'' \<in> SKIP_HOSTS"
proof -
  have h: "map_of DEFAULT_MIRRORS (str ''reddit.com'') = Some (str ''rxddit.com'')"
    by (simp add: DEFAULT_MIRRORS_def str_def)
  from mirror_keys_not_skipped [OF h] h show ?thesis by simp
qed

text \<open>
  C3. The formatter's output is the free text, a line feed, the attribution line and then,
  for every block in order, a line feed and the author line (when there is an author), a
  line feed and the caption line (when there is a caption), and a line feed and the line
  pairing the two links. The pairing line has the original URL between \<open>(<\<close> and
  \<open>>)\<close>, wrapped in angle brackets, and the mirror URL between plain parentheses, not
  wrapped. So for every block the output contains its pairing line as a whole line: after
  a line feed, and followed by a line feed or by the end of the output. (Whether the
  platform then shows a preview is outside the program.)
\<close>

theorem format_repost_pairs_links:
  "format_repost author_mention (Some extra_text) blocks
     = Inr (extra_text @ [10] @ str ''Sent by '' @ author_mention
            @ concat (map (\<lambda>(orig, mirror, ig_author, ig_caption).
                (if truthy ig_author then [10] @ str ''**Author:** '' @ the ig_author else [])
                @ (if truthy ig_caption then [10] @ str ''**Caption:** '' @ the ig_caption else [])
                @ [10] @ str ''[Original Link](<'' @ orig @ str ''>) | [Embed Link]('' @ mirror
                @ str '')'') blocks))
   \<and> (\<forall>orig mirror ig_author ig_caption.
         (orig, mirror, ig_author, ig_caption) \<in> set blocks \<longrightarrow>
         (\<exists>pre post.
            format_repost author_mention (Some extra_text) blocks
              = Inr (pre @ [10] @ str ''[Original Link](<'' @ orig @ str ''>) | [Embed Link](''
                     @ mirror @ str '')'' @ post)
            \<and> (post = [] \<or> hd post = 10)))"
proof -
  let ?nl = "\<lambda>ls. concat (map (\<lambda>l. 10 # l) ls)"
  let ?head = "extra_text @ [10] @ str ''Sent by '' @ author_mention"
  have l: "repost_lines author_mention (Some extra_text) blocks
        = map Some (extra_text # (str ''Sent by '' @ author_mention) # concat (map block_lines blocks))"
    by (simp add: repost_lines_def repost_fold)
  have out: "format_repost author_mention (Some extra_text) blocks
               = Inr (?head @ ?nl (concat (map block_lines blocks)))"
    unfolding format_repost_def l Let_def by (simp add: comp_def join_nl_Cons)
  have 1: "format_repost author_mention (Some extra_text) blocks
     = Inr (extra_text @ [10] @ str ''Sent by '' @ author_mention
            @ concat (map (\<lambda>(orig, mirror, ig_author, ig_caption).
                (if truthy ig_author then [10] @ str ''**Author:** '' @ the ig_author else [])
                @ (if truthy ig_caption then [10] @ str ''**Caption:** '' @ the ig_caption else [])
                @ [10] @ str ''[Original Link](<'' @ orig @ str ''>) | [Embed Link]('' @ mirror
                @ str '')'') blocks))"
    unfolding out blocks_text [symmetric] by simp
  have 2: "\<exists>pre post.
            format_repost author_mention (Some extra_text) blocks
              = Inr (pre @ [10] @ str ''[Original Link](<'' @ orig @ str ''>) | [Embed Link](''
                     @ mirror @ str '')'' @ post)
            \<and> (post = [] \<or> hd post = 10)"
    if m: "(orig, mirror, a, c) \<in> set blocks" for orig mirror a c
  proof -
    from m obtain bs1 bs2 where s: "blocks = bs1 @ (orig, mirror, a, c) # bs2"
      by (meson split_list)
    let ?pre = "?head @ ?nl (concat (map block_lines bs1))
        @ (if truthy a then [10] @ str ''**Author:** '' @ the a else [])
        @ (if truthy c then [10] @ str ''**Caption:** '' @ the c else [])"
    let ?post = "?nl (concat (map block_lines bs2))"
    have "?nl (concat (map block_lines blocks))
        = ?nl (concat (map block_lines bs1)) @ ?nl (block_lines (orig, mirror, a, c)) @ ?post"
      unfolding s by simp
    then have "format_repost author_mention (Some extra_text) blocks
        = Inr (?pre @ [10] @ str ''[Original Link](<'' @ orig @ str ''>) | [Embed Link](''
               @ mirror @ str '')'' @ ?post)"
      unfolding out block_text by simp
    moreover have "?post = [] \<or> hd ?post = 10" by (rule blocks_text_start)
    ultimately show ?thesis by blast
  qed
  from 1 2 show ?thesis by blast
qed

theorem format_repost_pairs_links_witness:
  "(str ''https://x.com/a'', str ''https://fixupx.com/a'', Some (str ''bob''), None)
     \<in> set [(str ''https://x.com/a'', str ''https://fixupx.com/a'', Some (str ''bob''), None),
             (str ''https://reddit.com/r'', str ''https://rxddit.com/r'', None, None)]
   \<and> format_repost (str ''@u'') (Some (str ''look''))
        [(str ''https://x.com/a'', str ''https://fixupx.com/a'', Some (str ''bob''), None),
         (str ''https://reddit.com/r'', str ''https://rxddit.com/r'', None, None)]
     = Inr (str ''look'' @ [10] @ str ''Sent by @u'' @ [10] @ str ''**Author:** bob'' @ [10]
            @ str ''[Original Link](<https://x.com/a>) | [Embed Link](https://fixupx.com/a)''
            @ [10]
            @ str ''[Original Link](<https://reddit.com/r>) | [Embed Link](https://rxddit.com/r)'')"
proof -
  let ?blocks = "[(str ''https://x.com/a'', str ''https://fixupx.com/a'', Some (str ''bob''), None),
                  (str ''https://reddit.com/r'', str ''https://rxddit.com/r'', None, None)]"
  have m: "(str ''https://x.com/a'', str ''https://fixupx.com/a'', Some (str ''bob''), None)
             \<in> set ?blocks" by simp
  from format_repost_pairs_links [of "str ''@u''" "str ''look''" ?blocks] m
  show ?thesis by (simp add: truthy_def str_def)
qed

text \<open>
  C4, as stated: a \<open>HEAD\<close> attempt answered without a redirect counts as a failure and
  is followed by a \<open>GET\<close>. In the code only a raised exception is a failure: below, the
  \<open>HEAD\<close> response has an empty redirect history, the resolver returns its URL (the share
  URL itself), and no \<open>GET\<close> request is sent.
\<close>

theorem head_without_redirect_counterexample:
  "http_head env0 (str ''https://www.instagram.com/share/abc'')
     = Inr \<lparr>status = 200, resp_url = str ''https://www.instagram.com/share/abc'', history = []\<rparr>
   \<and> resolve_instagram_share env0 (str ''https://www.instagram.com/share/abc'')
       = (Some (str ''https://www.instagram.com/share/abc''),
          [HEAD (str ''https://www.instagram.com/share/abc'')])"
  by (simp add: resolve_instagram_share_def env0_def)

text \<open>
  C4, amended: the resolver first sends a \<open>HEAD\<close> request; every response to it,
  redirected or not, is a success whose URL is returned with no further request; when the
  \<open>HEAD\<close> request raises (timeout, network error, protocol error) it sends exactly one
  \<open>GET\<close> request and returns the URL of its response; when that raises too, it returns
  none. The result is always a value: no exception reaches the caller.
\<close>

theorem resolve_head_then_get:
  "(\<forall>resp. http_head E url = Inr resp \<longrightarrow>
       resolve_instagram_share E url = (Some (resp_url resp), [HEAD url]))
   \<and> (\<forall>e resp. http_head E url = Inl e \<and> http_get E url = Inr resp \<longrightarrow>
       resolve_instagram_share E url = (Some (resp_url resp), [HEAD url, GET url]))
   \<and> (\<forall>e e'. http_head E url = Inl e \<and> http_get E url = Inl e' \<longrightarrow>
       resolve_instagram_share E url = (None, [HEAD url, GET url]))
   \<and> (snd (resolve_instagram_share E url) = [HEAD url]
       \<or> snd (resolve_instagram_share E url) = [HEAD url, GET url])"
  by (simp add: resolve_instagram_share_def split: sum.splits)

theorem resolve_head_then_get_witness:
  "resolve_instagram_share env0 (str ''https://instagram.com/share/a'')
     = (Some (str ''https://instagram.com/share/a''), [HEAD (str ''https://instagram.com/share/a'')])
   \<and> resolve_instagram_share env1 (str ''https://instagram.com/share/a'')
     = (Some (str ''https://www.instagram.com/stories/abc/999''),
        [HEAD (str ''https://instagram.com/share/a''), GET (str ''https://instagram.com/share/a'')])
   \<and> resolve_instagram_share env2 (str ''https://instagram.com/share/a'')
     = (None, [HEAD (str ''https://instagram.com/share/a''), GET (str ''https://instagram.com/share/a'')])"
proof -
  let ?u = "str ''https://instagram.com/share/a''"
  have 0: "http_head env0 ?u = Inr \<lparr>status = 200, resp_url = ?u, history = []\<rparr>"
    by (simp add: env0_def)
  have 1: "http_head env1 ?u = Inl TimeoutError \<and> http_get env1 ?u
      = Inr \<lparr>status = 200, resp_url = str ''https://www.instagram.com/stories/abc/999'', history = [?u]\<rparr>"
    by (simp add: env1_def env0_def)
  have 2: "http_head env2 ?u = Inl TimeoutError \<and> http_get env2 ?u = Inl ClientError"
    by (simp add: env2_def env1_def env0_def)
  from resolve_head_then_get [of env0 ?u] 0
  have a: "resolve_instagram_share env0 ?u = (Some ?u, [HEAD ?u])" by simp
  from resolve_head_then_get [of env1 ?u] 1
  have b: "resolve_instagram_share env1 ?u
             = (Some (str ''https://www.instagram.com/stories/abc/999''), [HEAD ?u, GET ?u])" by simp
  from resolve_head_then_get [of env2 ?u] 2
  have c: "resolve_instagram_share env2 ?u = (None, [HEAD ?u, GET ?u])" by simp
  from a b c show ?thesis by simp
qed

text \<open>
  C5, as stated: whenever the page has a description value and a title of the pattern, the
  extracted caption is the normalised description. On \<open>soup0\<close> the description is a
  single space: it is present, so it replaces the caption \<open>hello\<close> of the title, but it
  normalises to the empty string, and the caption that comes out is the one of the
  structured data.
\<close>

theorem blank_description_counterexample:
  "og_title_of soup0 = Some (str ''bob on Instagram: '' @ [34] @ str ''hello'' @ [34])
   \<and> ig_title_match (strip (str ''bob on Instagram: '' @ [34] @ str ''hello'' @ [34]))
       = Some (str ''bob'', str ''hello'')
   \<and> og_desc_of soup0 = Some (str '' '')
   \<and> truncate (Some (compact_ws (Some (str '' '')))) MAX_LEN = []
   \<and> extract_og_twitter_meta soup0 = Inr (Some (str ''bob''), Some (str ''from json''))"
  by (simp add: soup0_def meta_defs)

text \<open>
  C5, amended: for every page whose title matches the pattern and whose description value
  has a character that is not whitespace (it does not normalise to the empty string), the
  extracted caption is the description, normalised and truncated to the budget, not the
  caption of the title; the extracted author is the normalised author of the title.
\<close>

theorem description_overrides_title_caption:
  assumes t: "og_title_of sp = Some t" "ig_title_match (strip t) = Some (g1, g2)"
    and d: "og_desc_of sp = Some d" "compact_ws (Some d) \<noteq> []"
  shows "extract_og_twitter_meta sp
           = Inr (Some (compact_ws (Some g1)), Some (truncate (Some (compact_ws (Some d))) MAX_LEN))"
proof -
  have tne: "t \<noteq> []"
  proof
    assume "t = []"
    with t(2) show False by (simp add: strip_def ig_title_match_def)
  qed
  have dne: "d \<noteq> []"
  proof
    assume "d = []"
    with d(2) show False by (simp add: compact_ws_def strip_def)
  qed
  have a: "compact_ws (Some g1) \<noteq> []" using t(2) by (rule title_author_nonempty)
  have p: "parse_ig_from_og (Some t) (Some d) = (Some (compact_ws (Some g1)), Some (compact_ws (Some d)))"
    using tne dne t(2) by (simp add: parse_ig_from_og_def truthy_def)
  show ?thesis
    unfolding extract_og_twitter_meta_def t(1) d(1) p using a d(2)
    by (simp add: truthy_def of_opt_def finish_author_def finish_caption_def compact_ws_idem)
qed

theorem description_overrides_title_caption_witness:
  "extract_og_twitter_meta soup1 = Inr (Some (str ''bob''), Some (str ''A nice day''))"
proof -
  let ?t = "str ''bob on Instagram: '' @ [34] @ str ''hello'' @ [34]"
  have 1: "og_title_of soup1 = Some ?t" by (simp add: soup1_def meta_defs)
  have 2: "ig_title_match (strip ?t) = Some (str ''bob'', str ''hello'')" by (simp add: meta_defs)
  have 3: "og_desc_of soup1 = Some (str ''  A  nice   day '')" by (simp add: soup1_def meta_defs)
  have 4: "compact_ws (Some (str ''  A  nice   day '')) = str ''A nice day''" by (simp add: meta_defs)
  then have 5: "compact_ws (Some (str ''  A  nice   day '')) \<noteq> []" by (simp add: str_def)
  have 6: "compact_ws (Some (str ''bob'')) = str ''bob''" by (simp add: meta_defs)
  have 7: "truncate (Some (str ''A nice day'')) MAX_LEN = str ''A nice day''" by (simp add: meta_defs)
  from description_overrides_title_caption [OF 1 2 3 5] show ?thesis unfolding 4 6 7 .
qed

text \<open>
  C6, as stated: the generic rewrite changes only the host of the URL, and no other
  component differs. The code replaces the whole network location, so a port (and user
  information) of the input is dropped: the input below has port \<open>8080\<close>, its rewrite
  has none.
\<close>

theorem generic_rewrite_drops_port_counterexample:
  "rewrite_one env0 (str ''https://x.com:8080/a'') = (Some (str ''https://fixupx.com/a''), None)
   \<and> map_option hostinfo (urlparse env0 (str ''https://x.com:8080/a''))
       = Some (str ''x.com'', Some (str ''8080''))
   \<and> map_option hostinfo (urlparse env0 (str ''https://fixupx.com/a''))
       = Some (str ''fixupx.com'', None)"
  by (simp add: eval_defs)

text \<open>
  C6, amended: for every input URL whose host (lower-cased) is not in \<open>SKIP_HOSTS\<close> and
  is classified to a source key other than \<open>instagram.com\<close>, the generic rewrite returns
  a mirror URL and no canonical URL, and the mirror URL parses to the components of the
  input with the whole network location (user information, host and port) replaced by the
  mirror host: scheme, path, parameters, query and fragment are those of the parsed input.
\<close>

theorem generic_rewrite_replaces_netloc:
  assumes p: "urlparse E url = Some p"
    and host: "host = lower (case hostname p of None \<Rightarrow> [] | Some h \<Rightarrow> h)"
    and skip: "host \<notin> SKIP_HOSTS"
    and k: "pick_source host = Some k" "k \<noteq> str ''instagram.com''"
  shows "\<exists>m. map_of DEFAULT_MIRRORS k = Some m
           \<and> rewrite_one E url = (Some (urlunparse (p\<lparr>netloc := m\<rparr>)), None)
           \<and> urlparse E (urlunparse (p\<lparr>netloc := m\<rparr>)) = Some (p\<lparr>netloc := m\<rparr>)"
proof -
  have lh: "lower host = host" unfolding host by (rule lower_idem)
  from pick_source_mirror [OF k(1)] obtain m where
    m: "map_of DEFAULT_MIRRORS k = Some m" "(k, m) \<in> set DEFAULT_MIRRORS" and kne: "k \<noteq> []" by blast
  note mh = mirror_hosts [OF m(2)]
  have hne: "host \<noteq> []" using pick_source_nonempty [OF k(1)] lh by simp
  have ni: "\<not> endswith host (str ''instagram.com'')"
    using pick_source_instagram [of host] k lh by auto
  have "netloc p \<noteq> []" using hne hostname_no_netloc [of p] by (auto simp: host lower_def)
  with p have st: "(path p = [] \<and> params p = []) \<or> (path p \<noteq> [] \<and> hd (path p) = cp CHR ''/'')"
    by (rule urlparse_path_start)
  have rt: "urlparse E (urlunparse (p\<lparr>netloc := m\<rparr>)) = Some (p\<lparr>netloc := m\<rparr>)"
    using p mh(1) st by (rule urlparse_roundtrip)
  have ne: "urlunparse (p\<lparr>netloc := m\<rparr>) \<noteq> url"
  proof
    assume "urlunparse (p\<lparr>netloc := m\<rparr>) = url"
    with rt p have "p\<lparr>netloc := m\<rparr> = p" by simp
    then have "hostname p = Some m" using mh(2) [of p] by simp
    then have "host = m" using mh(3) by (simp add: host)
    with mh(4) skip show False by simp
  qed
  have "rewrite_one E url = (Some (urlunparse (p\<lparr>netloc := m\<rparr>)), None)"
    unfolding rewrite_one_def p using host [symmetric] hne skip ni k(1) kne m(1) mh(5) ne
    by (simp add: Let_def truthy_def)
  with m(1) rt show ?thesis by blast
qed

theorem generic_rewrite_replaces_netloc_witness:
  "rewrite_one env0 (str ''HTTPS://user@old.Reddit.com:8080/r/a;b?x=1#top'')
     = (Some (str ''https://rxddit.com/r/a;b?x=1#top''), None)
   \<and> urlparse env0 (str ''https://rxddit.com/r/a;b?x=1#top'')
       = Some \<lparr>scheme = str ''https'', netloc = str ''rxddit.com'', path = str ''/r/a'',
                params = str ''b'', query = str ''x=1'', fragment = str ''top''\<rparr>"
proof -
  let ?url = "str ''HTTPS://user@old.Reddit.com:8080/r/a;b?x=1#top''"
  let ?p = "\<lparr>scheme = str ''https'', netloc = str ''user@old.Reddit.com:8080'', path = str ''/r/a'',
             params = str ''b'', query = str ''x=1'', fragment = str ''top''\<rparr>"
  have 1: "urlparse env0 ?url = Some ?p" by (simp add: eval_defs)
  have 2: "str ''old.reddit.com'' = lower (case hostname ?p of None \<Rightarrow> [] | Some h \<Rightarrow> h)"
    by (simp add: eval_defs)
  have 3: "str ''old.reddit.com'' \<notin> SKIP_HOSTS" by (simp add: eval_defs)
  have 4: "pick_source (str ''old.reddit.com'') = Some (str ''reddit.com'')" by (simp add: eval_defs)
  have 5: "str ''reddit.com'' \<noteq> str ''instagram.com''" by (simp add: str_def)
  have 6: "map_of DEFAULT_MIRRORS (str ''reddit.com'') = Some (str ''rxddit.com'')"
    by (simp add: eval_defs)
  have 7: "urlunparse (?p\<lparr>netloc := str ''rxddit.com''\<rparr>) = str ''https://rxddit.com/r/a;b?x=1#top''"
    by (simp add: eval_defs)
  from generic_rewrite_replaces_netloc [OF 1 2 3 4 5] 6 7 show ?thesis by auto
qed

text \<open>
  C7. Caption truncation with the fixed budget of 600 code points: a caption strictly longer
  than the budget becomes its first 599 code points followed by the ellipsis, of length
  exactly the budget; a caption at or under the budget is returned unchanged.
\<close>

theorem truncate_to_budget:
  "(MAX_LEN < int (length s) \<longrightarrow>
      length (truncate (Some s) MAX_LEN) = nat MAX_LEN
      \<and> last (truncate (Some s) MAX_LEN) = ellipsis
      \<and> truncate (Some s) MAX_LEN = take 599 s @ [ellipsis])
   \<and> (int (length s) \<le> MAX_LEN \<longrightarrow> truncate (Some s) MAX_LEN = s)"
  by (simp add: truncate_def slice_to_def MAX_LEN_def)

theorem truncate_to_budget_witness:
  "MAX_LEN < int (length (replicate 601 (cp CHR ''a'')))
   \<and> truncate (Some (replicate 601 (cp CHR ''a''))) MAX_LEN = replicate 599 (cp CHR ''a'') @ [ellipsis]
   \<and> length (truncate (Some (replicate 601 (cp CHR ''a''))) MAX_LEN) = 600
   \<and> int (length (str ''short'')) \<le> MAX_LEN
   \<and> truncate (Some (str ''short'')) MAX_LEN = str ''short''"
proof -
  have 1: "MAX_LEN < int (length (replicate 601 (cp CHR ''a'')))" by (simp add: MAX_LEN_def)
  have 2: "int (length (str ''short'')) \<le> MAX_LEN" by (simp add: MAX_LEN_def str_def)
  from truncate_to_budget [of "replicate 601 (cp CHR ''a'')"] 1
  have a: "truncate (Some (replicate 601 (cp CHR ''a''))) MAX_LEN = take 599 (replicate 601 (cp CHR ''a'')) @ [ellipsis]"
    and b: "length (truncate (Some (replicate 601 (cp CHR ''a''))) MAX_LEN) = nat MAX_LEN" by blast+
  have d: "nat MAX_LEN = 600" by (simp add: MAX_LEN_def)
  from truncate_to_budget [of "str ''short''"] 2
  have c: "truncate (Some (str ''short'')) MAX_LEN = str ''short''" by simp
  from 1 2 a b c d show ?thesis by simp
qed

text \<open>
  C8. For every Instagram URL (host ending in \<open>instagram.com\<close> and not in
  \<open>SKIP_HOSTS\<close>) whose canonical URL, which is the URL itself or, for a share link, the URL
  the resolver returns, has a path starting with \<open>/stories/\<close>, the rewrite returns that
  canonical URL and no mirror URL; and the link is in no triple of the rewrite phase.
\<close>

theorem story_canonical_without_mirror:
  assumes p: "urlparse E url = Some p"
    and host: "host = lower (case hostname p of None \<Rightarrow> [] | Some h \<Rightarrow> h)"
    and ig: "endswith host (str ''instagram.com'')"
    and skip: "host \<notin> SKIP_HOSTS"
    and can: "if startswith (path p) (str ''/share/'')
              then fst (resolve_instagram_share E url) = Some canonical \<and> canonical \<noteq> []
                   \<and> urlparse E canonical = Some pc
              else canonical = url \<and> pc = p"
    and story: "startswith (path pc) STORY_PREFIX"
  shows "rewrite_one E url = (None, Some canonical)
         \<and> (\<forall>links seen. url \<notin> fst ` set (rewrite_phase E links seen))"
proof -
  have hne: "host \<noteq> []" using ig by (auto simp: endswith_def str_def)
  have ri: "rewrite_instagram E url = Inr (None, Some canonical)"
  proof (cases "startswith (path p) (str ''/share/'')")
    case True
    with can have c: "fst (resolve_instagram_share E url) = Some canonical" "canonical \<noteq> []"
      "urlparse E canonical = Some pc" by simp_all
    show ?thesis unfolding rewrite_instagram_def p using True c classify_instagram_story [OF story]
      by (simp add: Let_def truthy_def)
  next
    case False
    with can have c: "canonical = url" "pc = p" by simp_all
    show ?thesis unfolding rewrite_instagram_def p using False c classify_instagram_story [OF story]
      by simp
  qed
  have r: "rewrite_one E url = (None, Some canonical)"
    unfolding rewrite_one_def p using host [symmetric] hne skip ig ri by (simp add: Let_def)
  have "url \<notin> fst ` set (rewrite_phase E links seen)" for links seen
  proof
    assume "url \<in> fst ` set (rewrite_phase E links seen)"
    then obtain t where "t \<in> set (rewrite_phase E links seen)" "fst t = url" by auto
    then have "truthy (fst (rewrite_one E url))" using rewrite_phase_mirror by blast
    with r show False by (simp add: truthy_def)
  qed
  with r show ?thesis by simp
qed

theorem story_canonical_without_mirror_witness:
  "rewrite_one env1 (str ''https://instagram.com/share/xyz'')
     = (None, Some (str ''https://www.instagram.com/stories/abc/999''))
   \<and> rewrite_phase env1 [str ''https://instagram.com/share/xyz''] {} = []"
proof -
  let ?url = "str ''https://instagram.com/share/xyz''"
  let ?can = "str ''https://www.instagram.com/stories/abc/999''"
  let ?p = "\<lparr>scheme = str ''https'', netloc = str ''instagram.com'', path = str ''/share/xyz'',
             params = [], query = [], fragment = []\<rparr>"
  let ?pc = "\<lparr>scheme = str ''https'', netloc = str ''www.instagram.com'',
              path = str ''/stories/abc/999'', params = [], query = [], fragment = []\<rparr>"
  have 1: "urlparse env1 ?url = Some ?p" by (simp add: eval_defs)
  have 2: "str ''instagram.com'' = lower (case hostname ?p of None \<Rightarrow> [] | Some h \<Rightarrow> h)"
    by (simp add: eval_defs)
  have 3: "endswith (str ''instagram.com'') (str ''instagram.com'')" by (simp add: eval_defs)
  have 4: "str ''instagram.com'' \<notin> SKIP_HOSTS" by (simp add: eval_defs)
  have 5: "if startswith (path ?p) (str ''/share/'')
           then fst (resolve_instagram_share env1 ?url) = Some ?can \<and> ?can \<noteq> []
                \<and> urlparse env1 ?can = Some ?pc
           else ?can = ?url \<and> ?pc = ?p" by (simp add: eval_defs)
  have 6: "startswith (path ?pc) STORY_PREFIX" by (simp add: eval_defs)
  from story_canonical_without_mirror [OF 1 2 3 4 5 6]
  have r: "rewrite_one env1 ?url = (None, Some ?can)" by simp
  then have "rewrite_phase env1 [?url] {} = []" by (simp add: truthy_def)
  with r show ?thesis by simp
qed

text \<open>
  C9. Host classification is a plain suffix test on characters, with no boundary between
  domain labels: \<open>matrix.com\<close> ends in \<open>x.com\<close> without being a subdomain of it, is
  classified as \<open>x.com\<close>, and a URL on that host is rewritten to the mirror of \<open>x.com\<close>.
\<close>

theorem suffix_match_without_label_boundary:
  "endswith (str ''matrix.com'') (str ''x.com'')
   \<and> \<not> endswith (str ''matrix.com'') (str ''.x.com'')
   \<and> pick_source (str ''matrix.com'') = Some (str ''x.com'')
   \<and> rewrite_one E (str ''https://matrix.com/a'') = (Some (str ''https://fixupx.com/a''), None)"
  by (simp add: eval_defs)

text \<open>
  C10. The skip check is an exact test of membership and the classification a suffix test:
  \<open>www.fixupx.com\<close>, a subdomain of a mirror host, is not in \<open>SKIP_HOSTS\<close>, is classified
  as \<open>x.com\<close> by its suffix, and a URL on it is rewritten again, to the bare mirror host.
\<close>

theorem mirror_subdomain_rewritten_again:
  "str ''www.fixupx.com'' \<notin> SKIP_HOSTS
   \<and> str ''fixupx.com'' \<in> SKIP_HOSTS
   \<and> pick_source (str ''www.fixupx.com'') = Some (str ''x.com'')
   \<and> rewrite_one E (str ''https://www.fixupx.com/user/status/1'')
       = (Some (str ''https://fixupx.com/user/status/1''), None)"
  by (simp add: eval_defs)

end
